theory Spec2Isabelle
  imports Main "HOL-Library.Word"
begin

unbundle bit_operations_syntax

section \<open>Calls that may not return\<close>

text \<open>
  A Go call returns, ends the process (\<^verbatim>\<open>log.Fatal\<close>: the message is logged and
  \<^verbatim>\<open>os.Exit(1)\<close> runs) or panics (\<^verbatim>\<open>log.Panic\<close>, a nil dereference, a slice bound).
\<close>

datatype 'a outcome = Returns 'a | Fatal | Panics string

type_synonym error = string

text \<open>Go's \<^verbatim>\<open>int\<close> on a 64-bit platform and \<^verbatim>\<open>int64\<close>: addition wraps.\<close>

type_synonym int64 = "64 word"

section \<open>What go-git hands to the engine\<close>

text \<open>
  \<^verbatim>\<open>plumbing.Hash\<close> is \<^verbatim>\<open>[20]byte\<close>; \<^verbatim>\<open>Hash.String()\<close> is its lower-case hexadecimal
  form, 40 characters, most significant nibble first.
\<close>

type_synonym hash = "160 word"

definition hexdigit :: "nat \<Rightarrow> char" where
  "hexdigit n = ''0123456789abcdef'' ! n"

definition Hash_String :: "hash \<Rightarrow> string" where
  "Hash_String h = map (\<lambda>i. hexdigit (unat (drop_bit (4 * (39 - i)) h AND 15))) [0..<40]"

record Signature =
  sig_Name :: string
  sig_Email :: string
  sig_When_Unix :: int64

record File =
  file_Name :: string
  file_Hash :: hash
  file_Size :: int64

text \<open>
  \<^verbatim>\<open>object.FileIter\<close>: the files \<^verbatim>\<open>ForEach\<close> passes to its callback, in order, and the
  error \<^verbatim>\<open>ForEach\<close> returns after them (\<open>None\<close> is \<^verbatim>\<open>nil\<close>; the callbacks of this
  program always return \<^verbatim>\<open>nil\<close>).
\<close>

datatype FileIter = FileIter "File list" "error option"

record Commit =
  commit_Hash :: hash
  Author :: Signature
  Committer :: Signature
  Message :: string
  ParentHashes :: "hash list"
  Files :: "error + FileIter"

text \<open>
  \<^verbatim>\<open>git.Repository\<close>, read-only: \<^verbatim>\<open>Head()\<close> and \<^verbatim>\<open>Log(&git.LogOptions{From: h, All: true})\<close>.
  \<open>Log\<close> gives the commits that the iterator's \<^verbatim>\<open>ForEach\<close> passes to its callback; the
  error \<^verbatim>\<open>ForEach\<close> returns is dropped by \<^verbatim>\<open>Analyze\<close>, so it is not part of the model.
\<close>

record Repository =
  Head :: "error + hash"
  Log :: "hash \<Rightarrow> error + Commit list"

record CloneOptions =
  URL :: string
  Progress :: bool

text \<open>
  The repository provider: \<^verbatim>\<open>git.Clone\<close> into a fresh \<^verbatim>\<open>memory.NewStorage()\<close>,
  \<^verbatim>\<open>ioutil.TempDir("", name)\<close> and \<^verbatim>\<open>git.PlainClone(dir, isBare, options)\<close>. Each returns
  a Go pair \<^verbatim>\<open>(value, err)\<close>; a \<^verbatim>\<open>*git.Repository\<close> may be \<^verbatim>\<open>nil\<close> (\<open>None\<close>).
\<close>

record Provider =
  git_Clone :: "CloneOptions \<Rightarrow> Repository option \<times> error option"
  ioutil_TempDir :: "string \<Rightarrow> string \<times> error option"
  git_PlainClone :: "string \<Rightarrow> bool \<Rightarrow> CloneOptions \<Rightarrow> Repository option \<times> error option"

datatype provider_call =
  CallClone CloneOptions
  | CallTempDir string
  | CallPlainClone string bool CloneOptions

section \<open>The record model\<close>

text \<open>
  Modelled from the spec: the declarations of package \<^verbatim>\<open>model\<close> (\<^verbatim>\<open>RepositoryConfig\<close>,
  \<^verbatim>\<open>CommitVertex\<close>, \<^verbatim>\<open>CommitEdge\<close>, \<^verbatim>\<open>FileContentVertex\<close>) and \<^verbatim>\<open>index.Meta\<close> are not
  among the sources. The fields are those the engine reads and writes, with the types the
  engine gives them; \<^verbatim>\<open>Meta\<close> has the three fields the spec lists.
\<close>

record RepositoryConfig =
  RepositoryUrl :: string
  IsLocal :: bool
  UseInMemoryTempRepository :: bool
  PrintLogs :: bool

record CommitVertex =
  cv_RepositoryName :: string
  cv_CommitHash :: string
  cv_AuthorName :: string
  cv_AuthorMail :: string
  cv_AuthorTimestamp :: int64
  cv_CommitterName :: string
  cv_CommitterMail :: string
  cv_CommitterTimestamp :: int64
  cv_CommitMessage :: string

text \<open>
  Both fields of a \<^verbatim>\<open>CommitEdge\<close> are \<^verbatim>\<open>*string\<close>: \<^verbatim>\<open>AppendCommitEdge\<close> stores
  \<^verbatim>\<open>&commitHash\<close> and \<^verbatim>\<open>&parent\<close>. An edge holds two addresses; the strings are in the
  store.
\<close>

type_synonym addr = nat

record CommitEdge =
  ce_CommitHash :: addr
  ce_ParentCommitHash :: addr

record FileContentVertex =
  fc_CommitHash :: string
  fc_ObjectHash :: string
  fc_FileName :: string
  fc_FileSize :: int64

record Meta =
  meta_name :: string
  meta_schema :: string
  meta_operationalLevel :: string

text \<open>The zero value of \<^verbatim>\<open>index.Meta\<close>, which \<^verbatim>\<open>make([]index.Meta, n)\<close> fills a slice with.\<close>

definition zero_Meta :: Meta where
  "zero_Meta = \<lparr>meta_name = [], meta_schema = [], meta_operationalLevel = []\<rparr>"

section \<open>Transformers\<close>

record CommitHistoryTransformer =
  name :: string
  operationalLevel :: string
  vertexOutput :: string
  edgeOutput :: string
  vertexData :: "CommitVertex list"
  edgeData :: "CommitEdge list"

text \<open>
  Modelled from the spec: \<^verbatim>\<open>CommitContentTransformer\<close> and \<^verbatim>\<open>StructureInfoTransformer\<close>
  are not among the sources. The first "buffers a sequence of FileContentVertex" and
  "performs content-copy side effects during consumption": \<open>fileData\<close> is the buffer and
  \<open>copied\<close> lists the files handed to \<^verbatim>\<open>CopyFile\<close>. The second "accumulates a running
  file-count statistic" whose aggregation the spec leaves open: \<open>fileCounts\<close> lists the
  arguments of \<^verbatim>\<open>AddFileCount\<close> in call order.
\<close>

record CommitContentTransformer =
  fileData :: "FileContentVertex list"
  copied :: "File list"

record StructureInfoTransformer =
  fileCounts :: "int64 list"

text \<open>
  The dynamic type of a \<^verbatim>\<open>transformer.Transformer\<close> interface value: one of the three
  pointer types \<^verbatim>\<open>visitCommit\<close> asserts, or any other implementation.
\<close>

datatype Transformer =
  History CommitHistoryTransformer
  | Content CommitContentTransformer
  | Structure StructureInfoTransformer
  | Other

section \<open>The store\<close>

text \<open>
  \<open>cells\<close> holds the string variables whose address was taken, \<open>fresh\<close> is the next unused
  address. \<open>objs\<close> holds the transformer objects: a registered \<^verbatim>\<open>Transformer\<close> is an
  interface around a pointer, here a \<open>ref\<close>, and every method call goes to the object.
\<close>

type_synonym ref = nat

record Store =
  cells :: "addr \<Rightarrow> string"
  fresh :: addr
  objs :: "ref \<Rightarrow> Transformer"

definition new_var :: "string \<Rightarrow> Store \<Rightarrow> addr \<times> Store" where
  "new_var v s = (fresh s, s\<lparr>cells := (cells s)(fresh s := v), fresh := Suc (fresh s)\<rparr>)"

definition assign :: "addr \<Rightarrow> string \<Rightarrow> Store \<Rightarrow> Store" where
  "assign a v s = s\<lparr>cells := (cells s)(a := v)\<rparr>"

section \<open>What the sources leave open\<close>

text \<open>
  Before Go 1.22 a \<^verbatim>\<open>for ... range\<close> statement has one variable for the whole loop; from
  Go 1.22 (by the \<^verbatim>\<open>go\<close> directive of the module's \<^verbatim>\<open>go.mod\<close>) each iteration has a
  variable of its own. The module file is not among the sources, so the semantics is a
  parameter. The engine imports \<^verbatim>\<open>io/ioutil\<close>, deprecated since Go 1.16.
\<close>

datatype loopvar = PerLoop | PerIteration

text \<open>
  \<^verbatim>\<open>utils.ShortenHash\<close>, \<^verbatim>\<open>RepositoryConfig.GetRepositoryName\<close> and the \<^verbatim>\<open>GetMetaInfo\<close>
  methods of the transformers are not among the sources either: parameters.
\<close>

record Ext =
  range_var :: loopvar
  ShortenHash :: "string \<Rightarrow> string"
  GetRepositoryName :: "RepositoryConfig \<Rightarrow> string"
  GetMetaInfo :: "Transformer \<Rightarrow> Meta list"

section \<open>The engine\<close>

record Disdriller =
  repository :: "Repository option"
  transformer :: "ref list"
  config :: "RepositoryConfig option"

text \<open>
  \<^verbatim>\<open>Init\<close>. The result is the list of provider calls made, in order, and how the call
  ended. The error of \<^verbatim>\<open>git.PlainClone\<close> is assigned and never read.
\<close>

definition Init ::
  "Ext \<Rightarrow> Provider \<Rightarrow> Disdriller \<Rightarrow> RepositoryConfig \<Rightarrow> provider_call list \<times> Disdriller outcome"
where
  "Init ext p driller cfg =
    (let driller = driller\<lparr>config := Some cfg\<rparr>;
         progress = PrintLogs cfg
     in if IsLocal cfg then ([], Panics ''Using local repositories is not yet supported.'')
        else
          let options = \<lparr>URL = RepositoryUrl cfg, Progress = progress\<rparr> in
          if UseInMemoryTempRepository cfg then
            (case git_Clone p options of
               (r, Some err) \<Rightarrow> ([CallClone options], Fatal)
             | (r, None) \<Rightarrow> ([CallClone options], Returns (driller\<lparr>repository := r\<rparr>)))
          else
            (case ioutil_TempDir p (GetRepositoryName ext cfg) of
               (dir, Some err) \<Rightarrow> ([CallTempDir (GetRepositoryName ext cfg)], Fatal)
             | (dir, None) \<Rightarrow>
                 (case git_PlainClone p dir True options of
                    (r, err) \<Rightarrow>
                      ([CallTempDir (GetRepositoryName ext cfg), CallPlainClone dir True options],
                       Returns (driller\<lparr>repository := r\<rparr>)))))"

definition AppendTransformer :: "Disdriller \<Rightarrow> ref \<Rightarrow> Disdriller" where
  "AppendTransformer driller t = driller\<lparr>transformer := transformer driller @ [t]\<rparr>"

text \<open>
  \<^verbatim>\<open>GetMetaInfos\<close>: \<^verbatim>\<open>make([]index.Meta, len(driller.transformer))\<close> is a slice of that
  length (not capacity), filled with zero values; the loop appends behind it.
\<close>

fun GetMetaInfos_range :: "Ext \<Rightarrow> Store \<Rightarrow> Meta list \<Rightarrow> ref list \<Rightarrow> Meta list" where
  "GetMetaInfos_range ext s metas [] = metas"
| "GetMetaInfos_range ext s metas (t # ts) =
     GetMetaInfos_range ext s (metas @ GetMetaInfo ext (objs s t)) ts"

definition GetMetaInfos :: "Ext \<Rightarrow> Disdriller \<Rightarrow> Store \<Rightarrow> Meta list" where
  "GetMetaInfos ext driller s =
     GetMetaInfos_range ext s
       (replicate (length (transformer driller)) zero_Meta) (transformer driller)"

section \<open>The commit-history transformer\<close>

definition GetInstance :: CommitHistoryTransformer where
  "GetInstance =
     \<lparr>name = ''CommitHistoryTransformer'', operationalLevel = ''commit'',
      vertexOutput = ''data/commit-vertices.parquet'',
      edgeOutput = ''data/commit-edges.parquet'',
      vertexData = [], edgeData = []\<rparr>"

definition AppendCommitVertex ::
  "CommitHistoryTransformer \<Rightarrow> CommitVertex \<Rightarrow> CommitHistoryTransformer"
where
  "AppendCommitVertex tr commit = tr\<lparr>vertexData := vertexData tr @ [commit]\<rparr>"

text \<open>
  The variable \<^verbatim>\<open>parent\<close> at the start of an iteration: the loop's one variable,
  assigned the next element, or a new variable holding it.
\<close>

definition next_parent :: "loopvar \<Rightarrow> addr \<Rightarrow> string \<Rightarrow> Store \<Rightarrow> addr \<times> Store" where
  "next_parent lv pv x s = (case lv of PerLoop \<Rightarrow> (pv, assign pv x s) | PerIteration \<Rightarrow> new_var x s)"

fun AppendCommitEdge_range ::
  "loopvar \<Rightarrow> addr \<Rightarrow> addr \<Rightarrow> string list \<Rightarrow> Store \<times> CommitHistoryTransformer
     \<Rightarrow> Store \<times> CommitHistoryTransformer"
where
  "AppendCommitEdge_range lv pc pv [] (s, tr) = (s, tr)"
| "AppendCommitEdge_range lv pc pv (x # rest) (s, tr) =
     (let (parent, s1) = next_parent lv pv x s;
          entry = \<lparr>ce_CommitHash = pc, ce_ParentCommitHash = parent\<rparr>
      in AppendCommitEdge_range lv pc pv rest (s1, tr\<lparr>edgeData := edgeData tr @ [entry]\<rparr>))"

text \<open>
  \<^verbatim>\<open>AppendCommitEdge\<close>. The parameter \<^verbatim>\<open>commitHash\<close> is a variable of the call, and so is
  the range variable of the \<^verbatim>\<open>for\<close> statement (unused when every iteration has its own).
\<close>

definition AppendCommitEdge ::
  "loopvar \<Rightarrow> string \<Rightarrow> string list \<Rightarrow> Store \<times> CommitHistoryTransformer
     \<Rightarrow> Store \<times> CommitHistoryTransformer"
where
  "AppendCommitEdge lv commitHash parentHashes = (\<lambda>(s, tr).
     let (pc, s1) = new_var commitHash s;
         (pv, s2) = new_var [] s1
     in AppendCommitEdge_range lv pc pv parentHashes (s2, tr))"

text \<open>What a reader of the edge buffer sees: the two strings an edge points to.\<close>

definition edge_row :: "Store \<Rightarrow> CommitEdge \<Rightarrow> string \<times> string" where
  "edge_row s e = (cells s (ce_CommitHash e), cells s (ce_ParentCommitHash e))"

definition GetVertexData :: "CommitHistoryTransformer \<Rightarrow> CommitVertex list" where
  "GetVertexData tr = vertexData tr"

definition GetEdgeData :: "Store \<Rightarrow> CommitHistoryTransformer \<Rightarrow> (string \<times> string) list" where
  "GetEdgeData s tr = map (edge_row s) (edgeData tr)"

section \<open>The other two transformers\<close>

text \<open>
  Modelled from the spec: \<^verbatim>\<open>AppendFileContentVertices\<close>, \<^verbatim>\<open>CopyFile\<close> and \<^verbatim>\<open>AddFileCount\<close>
  are methods of the transformers that are not among the sources.
\<close>

definition AppendFileContentVertices ::
  "CommitContentTransformer \<Rightarrow> FileContentVertex list \<Rightarrow> CommitContentTransformer"
where
  "AppendFileContentVertices tr treeData = tr\<lparr>fileData := fileData tr @ treeData\<rparr>"

definition CopyFile :: "CommitContentTransformer \<Rightarrow> File \<Rightarrow> CommitContentTransformer" where
  "CopyFile tr file = tr\<lparr>copied := copied tr @ [file]\<rparr>"

definition AddFileCount :: "StructureInfoTransformer \<Rightarrow> int64 \<Rightarrow> StructureInfoTransformer" where
  "AddFileCount tr n = tr\<lparr>fileCounts := fileCounts tr @ [n]\<rparr>"

section \<open>Export\<close>

text \<open>
  Modelled from the spec: the \<^verbatim>\<open>Export\<close> methods of the file-inventory and structure
  transformers are not among the sources; of each the spec says "export flushes one
  output". \<^verbatim>\<open>Export\<close> of the commit-history transformer, from the source, hands the vertex
  buffer to a Parquet writer for \<open>vertexOutput\<close> and the edge buffer to one for
  \<open>edgeOutput\<close>; the writer reads the edges through their pointers. No \<^verbatim>\<open>Export\<close> empties a
  buffer.
\<close>

datatype exported =
  HistoryOut "string \<times> CommitVertex list" "string \<times> (string \<times> string) list"
  | ContentOut "FileContentVertex list"
  | StructureOut "int64 list"
  | NoOut

definition Export :: "Store \<Rightarrow> Transformer \<Rightarrow> exported" where
  "Export s t =
     (case t of
        History tr \<Rightarrow>
          HistoryOut (vertexOutput tr, GetVertexData tr) (edgeOutput tr, GetEdgeData s tr)
      | Content tr \<Rightarrow> ContentOut (fileData tr)
      | Structure tr \<Rightarrow> StructureOut (fileCounts tr)
      | Other \<Rightarrow> NoOut)"

section \<open>visitCommit\<close>

text \<open>Go's \<^verbatim>\<open>s[0:n]\<close> on a string: a run-time panic when \<open>n\<close> exceeds the length.\<close>

definition slice_to :: "nat \<Rightarrow> string \<Rightarrow> string option" where
  "slice_to n s = (if n \<le> length s then Some (take n s) else None)"

text \<open>
  The callback of \<^verbatim>\<open>files.ForEach\<close> in the file-inventory branch, run on the files in
  order; \<open>treeData\<close> and \<open>count\<close> are the captured variables.
\<close>

fun files_ForEach ::
  "Commit \<Rightarrow> File list \<Rightarrow> FileContentVertex list \<times> CommitContentTransformer \<times> int64
     \<Rightarrow> (FileContentVertex list \<times> CommitContentTransformer \<times> int64) outcome"
where
  "files_ForEach commit [] acc = Returns acc"
| "files_ForEach commit (file # files) (treeData, v, count) =
     (case slice_to 6 (Hash_String (commit_Hash commit)) of
        None \<Rightarrow> Panics ''slice bounds out of range''
      | Some shortCommitHash \<Rightarrow>
          (case slice_to 6 (Hash_String (file_Hash file)) of
             None \<Rightarrow> Panics ''slice bounds out of range''
           | Some shortObjectHash \<Rightarrow>
               files_ForEach commit files
                 (treeData @
                    [\<lparr>fc_CommitHash = shortCommitHash, fc_ObjectHash = shortObjectHash,
                      fc_FileName = file_Name file, fc_FileSize = file_Size file\<rparr>],
                  CopyFile v file, count + 1)))"

text \<open>
  \<^verbatim>\<open>visitCommit\<close>. The three type assertions test the dynamic type of \<^verbatim>\<open>*t\<close>, which is at
  most one of the three pointer types, so the three \<^verbatim>\<open>if\<close> statements are the branches of
  one case distinction. The result is the returned count and the store.
\<close>

definition visitCommit ::
  "Ext \<Rightarrow> Disdriller \<Rightarrow> Commit \<Rightarrow> ref \<Rightarrow> Store \<Rightarrow> (int64 \<times> Store) outcome"
where
  "visitCommit ext driller commit t s =
    (case objs s t of
       History v \<Rightarrow>
         (case config driller of
            None \<Rightarrow> Panics ''nil pointer dereference''
          | Some cfg \<Rightarrow>
              let shortCommitHash = ShortenHash ext (Hash_String (commit_Hash commit));
                  v1 = AppendCommitVertex v
                    \<lparr>cv_RepositoryName = GetRepositoryName ext cfg,
                     cv_CommitHash = shortCommitHash,
                     cv_AuthorName = sig_Name (Author commit),
                     cv_AuthorMail = sig_Email (Author commit),
                     cv_AuthorTimestamp = sig_When_Unix (Author commit),
                     cv_CommitterName = sig_Name (Committer commit),
                     cv_CommitterMail = sig_Email (Committer commit),
                     cv_CommitterTimestamp = sig_When_Unix (Committer commit),
                     cv_CommitMessage = Message commit\<rparr>;
                  pHashes = map Hash_String (ParentHashes commit);
                  (s1, v2) = AppendCommitEdge (range_var ext)
                    (Hash_String (commit_Hash commit)) pHashes (s, v1)
              in Returns (0, s1\<lparr>objs := (objs s1)(t := History v2)\<rparr>))
     | Content v \<Rightarrow>
         (case Files commit of
            Inl err \<Rightarrow> Returns (- 1, s)
          | Inr (FileIter files err) \<Rightarrow>
              (case files_ForEach commit files ([], v, 0) of
                 Returns (treeData, v1, count) \<Rightarrow>
                   let v2 = AppendFileContentVertices v1 treeData in
                   (case err of
                      Some e \<Rightarrow> Fatal
                    | None \<Rightarrow> Returns (count, s\<lparr>objs := (objs s)(t := Content v2)\<rparr>))
               | Fatal \<Rightarrow> Fatal
               | Panics m \<Rightarrow> Panics m))
     | Structure v \<Rightarrow>
         (case Files commit of
            Inl err \<Rightarrow> Fatal
          | Inr (FileIter files err) \<Rightarrow>
              let count = foldl (\<lambda>count file. count + 1) (0 :: int64) files;
                  v1 = AddFileCount v count
              in Returns (0, s\<lparr>objs := (objs s)(t := Structure v1)\<rparr>))
     | Other \<Rightarrow> Returns (0, s))"

section \<open>Analyze\<close>

datatype event =
  EvProgress string
  | EvLog hash
  | EvVisit ref hash
  | EvProcessed int64
  | EvExport ref exported

text \<open>
  The callback of \<^verbatim>\<open>refs.ForEach\<close>, run on the commits of one walk in order. \<open>count\<close> is
  the captured counter; the value \<^verbatim>\<open>visitCommit\<close> returns is added to it as it is.
\<close>

fun refs_ForEach ::
  "Ext \<Rightarrow> Disdriller \<Rightarrow> ref \<Rightarrow> Commit list \<Rightarrow> int64 \<times> event list \<times> Store
     \<Rightarrow> (int64 \<times> event list \<times> Store) outcome"
where
  "refs_ForEach ext driller t [] acc = Returns acc"
| "refs_ForEach ext driller t (commit # commits) (count, evs, s) =
     (case visitCommit ext driller commit t s of
        Returns (n, s1) \<Rightarrow>
          let count1 = count + n in
          refs_ForEach ext driller t commits
            (count1,
             evs @ [EvVisit t (commit_Hash commit)] @
               (if count1 \<noteq> 0 then [EvProcessed count1] else []),
             s1)
      | Fatal \<Rightarrow> Fatal
      | Panics m \<Rightarrow> Panics m)"

fun Analyze_range ::
  "Ext \<Rightarrow> Disdriller \<Rightarrow> Repository \<Rightarrow> hash \<Rightarrow> ref list \<Rightarrow> event list \<times> Store
     \<Rightarrow> (event list \<times> Store) outcome"
where
  "Analyze_range ext driller repo head [] acc = Returns acc"
| "Analyze_range ext driller repo head (t # ts) (evs, s) =
     (case Log repo head of
        Inl err \<Rightarrow> Fatal
      | Inr commits \<Rightarrow>
          (case refs_ForEach ext driller t commits (0, evs @ [EvLog head], s) of
             Returns (count, evs1, s1) \<Rightarrow>
               Analyze_range ext driller repo head ts
                 (evs1 @ [EvExport t (Export s1 (objs s1 t))], s1)
           | Fatal \<Rightarrow> Fatal
           | Panics m \<Rightarrow> Panics m))"

definition Analyze :: "Ext \<Rightarrow> Disdriller \<Rightarrow> Store \<Rightarrow> (event list \<times> Store) outcome" where
  "Analyze ext driller s =
     (case repository driller of
        None \<Rightarrow> Panics ''nil pointer dereference''
      | Some repo \<Rightarrow>
          (case Head repo of
             Inl err \<Rightarrow> Fatal
           | Inr head \<Rightarrow>
               Analyze_range ext driller repo head (transformer driller)
                 ([EvProgress ''Starting analysis...''], s)))"

section \<open>Notions used in the statements\<close>

text \<open>
  The rows a reader sees in the edges one call of \<^verbatim>\<open>AppendCommitEdge\<close> has appended, once
  the call is over: with one variable for the loop every edge points to it, and it holds
  the last parent.
\<close>

definition new_edge_rows :: "loopvar \<Rightarrow> string \<Rightarrow> string list \<Rightarrow> (string \<times> string) list" where
  "new_edge_rows lv commitHash parentHashes =
     (case lv of
        PerLoop \<Rightarrow> replicate (length parentHashes) (commitHash, last parentHashes)
      | PerIteration \<Rightarrow> map (Pair commitHash) parentHashes)"

text \<open>Every pointer of the edges is an allocated variable.\<close>

definition edges_below :: "addr \<Rightarrow> CommitEdge list \<Rightarrow> bool" where
  "edges_below n es = list_all (\<lambda>e. ce_CommitHash e < n \<and> ce_ParentCommitHash e < n) es"

definition wf_store :: "Store \<Rightarrow> bool" where
  "wf_store s =
     (\<forall>r. case objs s r of History tr \<Rightarrow> edges_below (fresh s) (edgeData tr) | _ \<Rightarrow> True)"

text \<open>The composite literals of \<^verbatim>\<open>visitCommit\<close>.\<close>

definition vertex_of :: "Ext \<Rightarrow> RepositoryConfig \<Rightarrow> Commit \<Rightarrow> CommitVertex" where
  "vertex_of ext cfg commit =
     \<lparr>cv_RepositoryName = GetRepositoryName ext cfg,
      cv_CommitHash = ShortenHash ext (Hash_String (commit_Hash commit)),
      cv_AuthorName = sig_Name (Author commit),
      cv_AuthorMail = sig_Email (Author commit),
      cv_AuthorTimestamp = sig_When_Unix (Author commit),
      cv_CommitterName = sig_Name (Committer commit),
      cv_CommitterMail = sig_Email (Committer commit),
      cv_CommitterTimestamp = sig_When_Unix (Committer commit),
      cv_CommitMessage = Message commit\<rparr>"

definition file_row :: "Commit \<Rightarrow> File \<Rightarrow> FileContentVertex" where
  "file_row commit file =
     \<lparr>fc_CommitHash = take 6 (Hash_String (commit_Hash commit)),
      fc_ObjectHash = take 6 (Hash_String (file_Hash file)),
      fc_FileName = file_Name file, fc_FileSize = file_Size file\<rparr>"

text \<open>
  What one visit adds to what \<^verbatim>\<open>Export\<close> will flush, by kind of transformer (proved of
  \<open>visitCommit\<close> below): a vertex and the edge rows of the commit, the rows of its files,
  or its file count; nothing to the last two when the tree cannot be read.
\<close>

definition edge_rows :: "Ext \<Rightarrow> Commit \<Rightarrow> (string \<times> string) list" where
  "edge_rows ext commit =
     new_edge_rows (range_var ext) (Hash_String (commit_Hash commit))
       (map Hash_String (ParentHashes commit))"

definition file_rows :: "Commit \<Rightarrow> FileContentVertex list" where
  "file_rows commit =
     (case Files commit of
        Inl err \<Rightarrow> []
      | Inr (FileIter files err) \<Rightarrow> map (file_row commit) files)"

definition file_counts :: "Commit \<Rightarrow> int64 list" where
  "file_counts commit =
     (case Files commit of
        Inl err \<Rightarrow> []
      | Inr (FileIter files err) \<Rightarrow> [of_nat (length files)])"

definition consume :: "Ext \<Rightarrow> RepositoryConfig \<Rightarrow> Commit \<Rightarrow> exported \<Rightarrow> exported" where
  "consume ext cfg commit out =
     (case out of
        HistoryOut (vo, vs) (eo, es) \<Rightarrow>
          HistoryOut (vo, vs @ [vertex_of ext cfg commit]) (eo, es @ edge_rows ext commit)
      | ContentOut fs \<Rightarrow> ContentOut (fs @ file_rows commit)
      | StructureOut ks \<Rightarrow> StructureOut (ks @ file_counts commit)
      | NoOut \<Rightarrow> NoOut)"

text \<open>What \<^verbatim>\<open>Export\<close> would flush for the transformer at \<open>u\<close>.\<close>

definition view :: "Store \<Rightarrow> ref \<Rightarrow> exported" where
  "view s u = Export s (objs s u)"

text \<open>Whether \<^verbatim>\<open>visitCommit\<close> returns, by kind of transformer.\<close>

definition visit_returns :: "Disdriller \<Rightarrow> Commit \<Rightarrow> exported \<Rightarrow> bool" where
  "visit_returns driller commit out =
     (case out of
        HistoryOut v e \<Rightarrow> config driller \<noteq> None
      | ContentOut fs \<Rightarrow>
          (case Files commit of Inl err \<Rightarrow> True | Inr (FileIter files err) \<Rightarrow> err = None)
      | StructureOut ks \<Rightarrow> (case Files commit of Inl err \<Rightarrow> False | Inr it \<Rightarrow> True)
      | NoOut \<Rightarrow> True)"

definition is_processed :: "event \<Rightarrow> bool" where
  "is_processed e = (case e of EvProcessed n \<Rightarrow> True | _ \<Rightarrow> False)"

text \<open>The commits of a walk; none when \<^verbatim>\<open>Log\<close> fails.\<close>

definition walk :: "Repository \<Rightarrow> hash \<Rightarrow> Commit list" where
  "walk repo head = (case Log repo head of Inl err \<Rightarrow> [] | Inr commits \<Rightarrow> commits)"

text \<open>
  The events of \<^verbatim>\<open>Analyze\<close> after its first, the counter's prints left out, from what
  each transformer would flush at the start (\<open>vw\<close>): one walk per registered transformer,
  in registration order, and its export at the end of the walk.
\<close>

fun trace ::
  "Ext \<Rightarrow> RepositoryConfig \<Rightarrow> hash \<Rightarrow> Commit list \<Rightarrow> ref list \<Rightarrow> (ref \<Rightarrow> exported)
     \<Rightarrow> event list"
where
  "trace ext cfg head commits [] vw = []"
| "trace ext cfg head commits (t # ts) vw =
     (let out = fold (consume ext cfg) commits (vw t) in
      EvLog head # map (\<lambda>c. EvVisit t (commit_Hash c)) commits @ [EvExport t out] @
      trace ext cfg head commits ts (vw(t := out)))"

text \<open>
  The exports of a run, in order, and an export as sets of rows. The file-count statistic
  is left out of the sets: how the structure transformer aggregates it is not among the
  sources, and the spec leaves it open.
\<close>

fun exports :: "event list \<Rightarrow> (ref \<times> exported) list" where
  "exports [] = []"
| "exports (EvExport t out # evs) = (t, out) # exports evs"
| "exports (e # evs) = exports evs"

datatype exported_sets =
  HistorySets "string \<times> CommitVertex set" "string \<times> (string \<times> string) set"
  | ContentSet "FileContentVertex set"
  | StructureAny
  | NoSet

definition as_sets :: "exported \<Rightarrow> exported_sets" where
  "as_sets out =
     (case out of
        HistoryOut (vo, vs) (eo, es) \<Rightarrow> HistorySets (vo, set vs) (eo, set es)
      | ContentOut fs \<Rightarrow> ContentSet (set fs)
      | StructureOut ks \<Rightarrow> StructureAny
      | NoOut \<Rightarrow> NoSet)"

section \<open>Example inputs\<close>

definition meta_ex :: "Transformer \<Rightarrow> Meta list" where
  "meta_ex t =
     (case t of
        History tr \<Rightarrow>
          [\<lparr>meta_name = name tr, meta_schema = ''CommitVertex'',
            meta_operationalLevel = operationalLevel tr\<rparr>]
      | _ \<Rightarrow> [])"

text \<open>
  \<open>ShortenHash\<close> as the six-character prefix, the length the file-inventory branch of
  \<^verbatim>\<open>visitCommit\<close> cuts its hashes to.
\<close>

definition ext_ex :: "loopvar \<Rightarrow> Ext" where
  "ext_ex lv =
     \<lparr>range_var = lv, ShortenHash = take 6, GetRepositoryName = (\<lambda>cfg. ''repo''),
      GetMetaInfo = meta_ex\<rparr>"

definition cfg_ex :: RepositoryConfig where
  "cfg_ex =
     \<lparr>RepositoryUrl = ''https://example.org/repo.git'', IsLocal = False,
      UseInMemoryTempRepository = False, PrintLogs = False\<rparr>"

definition provider_failing :: Provider where
  "provider_failing =
     \<lparr>git_Clone = (\<lambda>options. (None, Some ''repository not found'')),
      ioutil_TempDir = (\<lambda>n. (''/tmp/'' @ n, None)),
      git_PlainClone = (\<lambda>dir bare options. (None, Some ''repository not found''))\<rparr>"

definition driller_new :: Disdriller where
  "driller_new = \<lparr>repository = None, transformer = [], config = None\<rparr>"

text \<open>
  A store with three new transformers: a commit-history transformer at 0, a file-inventory
  transformer at 1, a structure transformer at 2.
\<close>

definition store_ex :: Store where
  "store_ex =
     \<lparr>cells = (\<lambda>a. []), fresh = 0,
      objs = (\<lambda>r. Other)
        (0 := History GetInstance,
         1 := Content \<lparr>fileData = [], copied = []\<rparr>,
         2 := Structure \<lparr>fileCounts = []\<rparr>)\<rparr>"

definition sig_ex :: Signature where
  "sig_ex = \<lparr>sig_Name = ''A'', sig_Email = ''a@example.org'', sig_When_Unix = 1600000000\<rparr>"

definition file_a :: File where
  "file_a = \<lparr>file_Name = ''a.txt'', file_Hash = 0xaaaaaaaaaaaaaaaaaaaaaaaaaaaaaaaaaaaaaaaa,
     file_Size = 10\<rparr>"

definition file_b :: File where
  "file_b = \<lparr>file_Name = ''b.txt'', file_Hash = 0xbbbbbbbbbbbbbbbbbbbbbbbbbbbbbbbbbbbbbbbb,
     file_Size = 5\<rparr>"

text \<open>
  A root commit with \<open>a.txt\<close>, its child with \<open>a.txt\<close> and \<open>b.txt\<close>, a commit on a second
  branch whose tree cannot be read, and the merge of the two.
\<close>

definition commit_root :: Commit where
  "commit_root =
     \<lparr>commit_Hash = 0xc1c1c1c1c1c1c1c1c1c1c1c1c1c1c1c1c1c1c1c1, Author = sig_ex,
      Committer = sig_ex, Message = ''root'', ParentHashes = [],
      Files = Inr (FileIter [file_a] None)\<rparr>"

definition commit_child :: Commit where
  "commit_child =
     \<lparr>commit_Hash = 0xc2c2c2c2c2c2c2c2c2c2c2c2c2c2c2c2c2c2c2c2, Author = sig_ex,
      Committer = sig_ex, Message = ''add b'',
      ParentHashes = [0xc1c1c1c1c1c1c1c1c1c1c1c1c1c1c1c1c1c1c1c1],
      Files = Inr (FileIter [file_a, file_b] None)\<rparr>"

definition commit_unreadable :: Commit where
  "commit_unreadable =
     \<lparr>commit_Hash = 0xc3c3c3c3c3c3c3c3c3c3c3c3c3c3c3c3c3c3c3c3, Author = sig_ex,
      Committer = sig_ex, Message = ''broken tree'',
      ParentHashes = [0xc1c1c1c1c1c1c1c1c1c1c1c1c1c1c1c1c1c1c1c1],
      Files = Inl ''object not found''\<rparr>"

definition commit_merge :: Commit where
  "commit_merge =
     \<lparr>commit_Hash = 0xc4c4c4c4c4c4c4c4c4c4c4c4c4c4c4c4c4c4c4c4, Author = sig_ex,
      Committer = sig_ex, Message = ''merge'',
      ParentHashes = [0xc2c2c2c2c2c2c2c2c2c2c2c2c2c2c2c2c2c2c2c2,
        0xc3c3c3c3c3c3c3c3c3c3c3c3c3c3c3c3c3c3c3c3],
      Files = Inr (FileIter [file_a, file_b] None)\<rparr>"

definition repo_ex :: "Commit list \<Rightarrow> Repository" where
  "repo_ex commits =
     \<lparr>Head = Inr 0xc4c4c4c4c4c4c4c4c4c4c4c4c4c4c4c4c4c4c4c4, Log = (\<lambda>from. Inr commits)\<rparr>"

definition driller_ex :: "Commit list \<Rightarrow> ref list \<Rightarrow> Disdriller" where
  "driller_ex commits ts =
     \<lparr>repository = Some (repo_ex commits), transformer = ts, config = Some cfg_ex\<rparr>"

section \<open>Properties of the store and of the commit-history transformer\<close>

lemma length_Hash_String [simp]: "length (Hash_String h) = 40"
  by (simp add: Hash_String_def)

lemma assign_assign: "assign a v (assign a w s) = assign a v s"
  by (simp add: assign_def)

lemma range_PerLoop:
  "AppendCommitEdge_range PerLoop pc pv xs (s, tr) =
     (if xs = [] then s else assign pv (last xs) s,
      tr\<lparr>edgeData := edgeData tr @
        replicate (length xs) \<lparr>ce_CommitHash = pc, ce_ParentCommitHash = pv\<rparr>\<rparr>)"
proof (induction xs arbitrary: s tr)
  case Nil
  show ?case by simp
next
  case (Cons x rest)
  show ?case
    by (simp add: Cons.IH next_parent_def assign_assign)
qed

lemma range_PerIteration:
  "AppendCommitEdge_range PerIteration pc pv xs (s, tr) = (s', tr') \<Longrightarrow>
     tr' = tr\<lparr>edgeData := edgeData tr @
       map (\<lambda>i. \<lparr>ce_CommitHash = pc, ce_ParentCommitHash = fresh s + i\<rparr>) [0..<length xs]\<rparr>
     \<and> fresh s' = fresh s + length xs \<and> objs s' = objs s
     \<and> (\<forall>a. a < fresh s \<longrightarrow> cells s' a = cells s a)
     \<and> (\<forall>i. i < length xs \<longrightarrow> cells s' (fresh s + i) = xs ! i)"
proof (induction xs arbitrary: s tr)
  case Nil
  then show ?case by auto
next
  case (Cons x rest)
  let ?s1 = "snd (new_var x s)"
  let ?tr1 = "tr\<lparr>edgeData := edgeData tr @ [\<lparr>ce_CommitHash = pc, ce_ParentCommitHash = fresh s\<rparr>]\<rparr>"
  from Cons.prems have run: "AppendCommitEdge_range PerIteration pc pv rest (?s1, ?tr1) = (s', tr')"
    by (simp add: next_parent_def new_var_def)
  note ih = Cons.IH [OF run]
  have fresh1: "fresh ?s1 = Suc (fresh s)" and objs1: "objs ?s1 = objs s"
    and cells1: "cells ?s1 = (cells s)(fresh s := x)"
    by (simp_all add: new_var_def)
  have "tr' = tr\<lparr>edgeData := edgeData tr @
       map (\<lambda>i. \<lparr>ce_CommitHash = pc, ce_ParentCommitHash = fresh s + i\<rparr>) [0..<length (x # rest)]\<rparr>"
    using ih by (simp add: fresh1 map_upt_Suc del: upt_Suc)
  moreover have "fresh s' = fresh s + length (x # rest)"
    using ih by (simp add: fresh1)
  moreover have "objs s' = objs s"
    using ih by (simp add: objs1)
  moreover have "\<forall>a. a < fresh s \<longrightarrow> cells s' a = cells s a"
    using ih by (simp add: fresh1 cells1)
  moreover have "\<forall>i. i < length (x # rest) \<longrightarrow> cells s' (fresh s + i) = (x # rest) ! i"
  proof (intro allI impI)
    fix i assume i: "i < length (x # rest)"
    show "cells s' (fresh s + i) = (x # rest) ! i"
    proof (cases i)
      case 0
      have "cells s' (fresh s) = cells ?s1 (fresh s)" using ih by (simp add: fresh1)
      then show ?thesis using 0 by (simp add: cells1)
    next
      case (Suc j)
      then have "j < length rest" using i by simp
      then have "cells s' (fresh ?s1 + j) = rest ! j" using ih by blast
      then show ?thesis using Suc by (simp add: fresh1)
    qed
  qed
  ultimately show ?case by blast
qed

lemma map_nth_Pair: "map (\<lambda>i. (h, xs ! i)) [0..<length xs] = map (Pair h) xs"
  by (rule nth_equalityI) simp_all

lemma AppendCommitEdge_facts:
  assumes "AppendCommitEdge lv h xs (s, tr) = (s', tr')"
  shows "\<exists>es. tr' = tr\<lparr>edgeData := edgeData tr @ es\<rparr> \<and> length es = length xs
           \<and> map (edge_row s') es = new_edge_rows lv h xs \<and> edges_below (fresh s') es"
    and "fresh s \<le> fresh s'" and "objs s' = objs s"
    and "\<forall>a. a < fresh s \<longrightarrow> cells s' a = cells s a"
proof -
  let ?s2 = "snd (new_var [] (snd (new_var h s)))"
  let ?pc = "fresh s" and ?pv = "Suc (fresh s)"
  have run: "AppendCommitEdge_range lv ?pc ?pv xs (?s2, tr) = (s', tr')"
    using assms by (simp add: AppendCommitEdge_def new_var_def)
  have s2: "fresh ?s2 = Suc (Suc (fresh s))" "objs ?s2 = objs s"
    "cells ?s2 = (cells s)(fresh s := h, Suc (fresh s) := [])"
    by (simp_all add: new_var_def)
  have "(\<exists>es. tr' = tr\<lparr>edgeData := edgeData tr @ es\<rparr> \<and> length es = length xs
           \<and> map (edge_row s') es = new_edge_rows lv h xs \<and> edges_below (fresh s') es)
        \<and> fresh s \<le> fresh s' \<and> objs s' = objs s
        \<and> (\<forall>a. a < fresh s \<longrightarrow> cells s' a = cells s a)"
  proof (cases lv)
    case PerLoop
    let ?es = "replicate (length xs) \<lparr>ce_CommitHash = ?pc, ce_ParentCommitHash = ?pv\<rparr>"
    from run PerLoop have s': "s' = (if xs = [] then ?s2 else assign ?pv (last xs) ?s2)"
      and tr': "tr' = tr\<lparr>edgeData := edgeData tr @ ?es\<rparr>"
      by (simp_all add: range_PerLoop)
    have "map (edge_row s') ?es = new_edge_rows lv h xs"
      using PerLoop by (simp add: s' new_edge_rows_def edge_row_def assign_def s2 map_replicate)
    moreover have "edges_below (fresh s') ?es"
      by (simp add: s' edges_below_def assign_def s2 list_all_iff)
    moreover have "fresh s \<le> fresh s'" "objs s' = objs s"
      "\<forall>a. a < fresh s \<longrightarrow> cells s' a = cells s a"
      by (simp_all add: s' assign_def s2)
    ultimately show ?thesis using tr' by auto
  next
    case PerIteration
    let ?es = "map (\<lambda>i. \<lparr>ce_CommitHash = ?pc, ce_ParentCommitHash = fresh ?s2 + i\<rparr>) [0..<length xs]"
    from run PerIteration have r: "tr' = tr\<lparr>edgeData := edgeData tr @ ?es\<rparr>"
      "fresh s' = fresh ?s2 + length xs" "objs s' = objs ?s2"
      "\<forall>a. a < fresh ?s2 \<longrightarrow> cells s' a = cells ?s2 a"
      "\<forall>i. i < length xs \<longrightarrow> cells s' (fresh ?s2 + i) = xs ! i"
      using range_PerIteration [of ?pc ?pv xs ?s2 tr s' tr'] by blast+
    have pc: "cells s' ?pc = h"
      using r(4) by (simp add: s2)
    have "map (edge_row s') ?es = map (\<lambda>i. (h, xs ! i)) [0..<length xs]"
      using r(5) pc by (simp add: edge_row_def)
    then have "map (edge_row s') ?es = new_edge_rows lv h xs"
      using PerIteration by (simp add: new_edge_rows_def map_nth_Pair)
    moreover have "edges_below (fresh s') ?es"
      by (simp add: r(2) s2 edges_below_def list_all_iff)
    moreover have "fresh s \<le> fresh s'" "objs s' = objs s"
      by (simp_all add: r s2)
    moreover have "\<forall>a. a < fresh s \<longrightarrow> cells s' a = cells s a"
      using r(4) by (simp add: s2)
    ultimately show ?thesis using r(1) by auto
  qed
  then show "\<exists>es. tr' = tr\<lparr>edgeData := edgeData tr @ es\<rparr> \<and> length es = length xs
           \<and> map (edge_row s') es = new_edge_rows lv h xs \<and> edges_below (fresh s') es"
    and "fresh s \<le> fresh s'" and "objs s' = objs s"
    and "\<forall>a. a < fresh s \<longrightarrow> cells s' a = cells s a"
    by blast+
qed

lemma rows_stable:
  "edges_below n es \<Longrightarrow> \<forall>a. a < n \<longrightarrow> cells s' a = cells s a \<Longrightarrow>
     map (edge_row s') es = map (edge_row s) es"
  by (simp add: edges_below_def list_all_iff edge_row_def)

lemma edges_below_mono: "n \<le> m \<Longrightarrow> edges_below n es \<Longrightarrow> edges_below m es"
  by (auto simp: edges_below_def list_all_iff)

lemma edges_below_append [simp]:
  "edges_below n (es @ fs) = (edges_below n es \<and> edges_below n fs)"
  by (simp add: edges_below_def)

section \<open>Properties of visitCommit, by kind of transformer\<close>

lemma slice_to_Hash_String [simp]: "slice_to 6 (Hash_String h) = Some (take 6 (Hash_String h))"
  by (simp add: slice_to_def)

lemma files_ForEach_eq:
  "files_ForEach commit files (treeData, v, count) =
     Returns (treeData @ map (file_row commit) files, v\<lparr>copied := copied v @ files\<rparr>,
       count + of_nat (length files))"
proof (induction files arbitrary: treeData v count)
  case Nil
  show ?case by simp
next
  case (Cons f files)
  show ?case
    by (simp add: Cons.IH file_row_def CopyFile_def)
qed

lemma foldl_count:
  "foldl (\<lambda>count file. count + 1) (c :: int64) files = c + of_nat (length files)"
  by (induction files arbitrary: c) simp_all

lemma visitCommit_History:
  assumes "objs s t = History v" and "config driller = Some cfg"
  shows "\<exists>s' es. visitCommit ext driller commit t s = Returns (0, s')
    \<and> objs s' = (objs s)(t := History (v\<lparr>vertexData := vertexData v @ [vertex_of ext cfg commit],
         edgeData := edgeData v @ es\<rparr>))
    \<and> length es = length (ParentHashes commit)
    \<and> map (edge_row s') es =
        new_edge_rows (range_var ext) (Hash_String (commit_Hash commit))
          (map Hash_String (ParentHashes commit))
    \<and> edges_below (fresh s') es \<and> fresh s \<le> fresh s'
    \<and> (\<forall>a. a < fresh s \<longrightarrow> cells s' a = cells s a)"
proof -
  let ?v1 = "AppendCommitVertex v (vertex_of ext cfg commit)"
  obtain s1 v2 where run:
    "AppendCommitEdge (range_var ext) (Hash_String (commit_Hash commit))
       (map Hash_String (ParentHashes commit)) (s, ?v1) = (s1, v2)"
    by (cases "AppendCommitEdge (range_var ext) (Hash_String (commit_Hash commit))
       (map Hash_String (ParentHashes commit)) (s, ?v1)") blast
  from AppendCommitEdge_facts [OF run] obtain es where es:
    "v2 = ?v1\<lparr>edgeData := edgeData ?v1 @ es\<rparr>"
    "length es = length (map Hash_String (ParentHashes commit))"
    "map (edge_row s1) es =
       new_edge_rows (range_var ext) (Hash_String (commit_Hash commit))
         (map Hash_String (ParentHashes commit))"
    "edges_below (fresh s1) es"
    and s1: "fresh s \<le> fresh s1" "objs s1 = objs s"
      "\<forall>a. a < fresh s \<longrightarrow> cells s1 a = cells s a"
    by blast
  let ?s' = "s1\<lparr>objs := (objs s1)(t := History v2)\<rparr>"
  have ret: "visitCommit ext driller commit t s = Returns (0, ?s')"
    using assms run by (simp add: visitCommit_def vertex_of_def)
  have "map (edge_row ?s') es = map (edge_row s1) es"
    by (simp add: edge_row_def)
  then show ?thesis
    using ret es s1 by (intro exI [of _ ?s'] exI [of _ es]) (simp add: AppendCommitVertex_def)
qed

lemma visitCommit_Content:
  assumes "objs s t = Content v"
  shows "visitCommit ext driller commit t s =
    (case Files commit of
       Inl err \<Rightarrow> Returns (- 1, s)
     | Inr (FileIter files err) \<Rightarrow>
         (case err of
            Some e \<Rightarrow> Fatal
          | None \<Rightarrow>
              Returns (of_nat (length files),
                s\<lparr>objs := (objs s)(t := Content (v\<lparr>copied := copied v @ files,
                  fileData := fileData v @ map (file_row commit) files\<rparr>))\<rparr>)))"
  using assms
  by (simp add: visitCommit_def files_ForEach_eq AppendFileContentVertices_def
      split: sum.split FileIter.split option.split)

lemma visitCommit_Structure:
  assumes "objs s t = Structure v"
  shows "visitCommit ext driller commit t s =
    (case Files commit of
       Inl err \<Rightarrow> Fatal
     | Inr (FileIter files err) \<Rightarrow>
         Returns (0, s\<lparr>objs := (objs s)(t :=
           Structure (v\<lparr>fileCounts := fileCounts v @ [of_nat (length files)]\<rparr>))\<rparr>))"
  using assms
  by (simp add: visitCommit_def foldl_count AddFileCount_def split: sum.split FileIter.split)

lemma visitCommit_Other:
  "objs s t = Other \<Longrightarrow> visitCommit ext driller commit t s = Returns (0, s)"
  by (simp add: visitCommit_def)

lemma map_fst_new_edge_rows: "map fst (new_edge_rows lv h xs) = replicate (length xs) h"
  by (cases lv) (simp_all add: new_edge_rows_def comp_def map_replicate_const)

lemma sint_count: "n < 2 ^ 63 \<Longrightarrow> sint (of_nat n :: int64) = int n"
proof -
  assume "n < 2 ^ 63"
  then have "int n < int (2 ^ 63)" by (simp only: of_nat_less_iff)
  then have "int n < 2 ^ 63" by (simp only: of_nat_power of_nat_numeral)
  then have "signed_take_bit 63 (int n) = int n"
    by (intro signed_take_bit_int_eq_self) simp_all
  then show ?thesis by (simp add: signed_of_nat)
qed

section \<open>The commit graph\<close>



text \<open>
  The vertex of a visit carries \<open>ShortenHash\<close> of the commit's hash string, the edges of
  the same visit carry the hash string itself.
\<close>

lemma visitCommit_vertex_and_edge_hash:
  assumes "objs s t = History v" and "config driller = Some cfg"
  shows "\<exists>s' v' vertex es.
    visitCommit ext driller commit t s = Returns (0, s') \<and> objs s' t = History v'
    \<and> vertexData v' = vertexData v @ [vertex] \<and> edgeData v' = edgeData v @ es
    \<and> cv_CommitHash vertex = ShortenHash ext (Hash_String (commit_Hash commit))
    \<and> list_all (\<lambda>e. cells s' (ce_CommitHash e) = Hash_String (commit_Hash commit)) es"
proof -
  from visitCommit_History [OF assms, of ext commit] obtain s' es where r:
    "visitCommit ext driller commit t s = Returns (0, s')"
    "objs s' = (objs s)(t := History (v\<lparr>vertexData := vertexData v @ [vertex_of ext cfg commit],
         edgeData := edgeData v @ es\<rparr>))"
    "map (edge_row s') es =
        new_edge_rows (range_var ext) (Hash_String (commit_Hash commit))
          (map Hash_String (ParentHashes commit))"
    by blast
  have "map fst (map (edge_row s') es) =
      replicate (length (ParentHashes commit)) (Hash_String (commit_Hash commit))"
    by (simp only: r(3) map_fst_new_edge_rows length_map)
  then have "map (\<lambda>e. cells s' (ce_CommitHash e)) es =
      replicate (length (ParentHashes commit)) (Hash_String (commit_Hash commit))"
    by (simp add: edge_row_def comp_def)
  then have "list_all (\<lambda>e. cells s' (ce_CommitHash e) = Hash_String (commit_Hash commit)) es"
    by (metis (mono_tags, lifting) in_set_replicate length_map list_all_length nth_map nth_mem)
  with r show ?thesis by (simp add: vertex_of_def)
qed

text \<open>
  Claim C2, at the child commit \<open>c2c2...\<close> with \<open>ShortenHash\<close> the six-character prefix:
  the vertex of the visit has \<^verbatim>\<open>CommitHash\<close> \<open>c2c2c2\<close>, the edge of the same visit has the
  40-character hash string, so the edge's \<^verbatim>\<open>CommitHash\<close> names no vertex of the walk.
\<close>

theorem visitCommit_edge_hash_is_not_vertex_hash:
  "(case visitCommit (ext_ex PerLoop) (driller_ex [] [0]) commit_child 0 store_ex of
      Returns (n, s') \<Rightarrow>
        (case objs s' 0 of
           History tr \<Rightarrow> (map cv_CommitHash (GetVertexData tr), map fst (GetEdgeData s' tr))
         | _ \<Rightarrow> ([], []))
    | _ \<Rightarrow> ([], [])) =
   ([''c2c2c2''], [''c2c2c2c2c2c2c2c2c2c2c2c2c2c2c2c2c2c2c2c2''])"
  by code_simp

section \<open>The buffers of the commit-history transformer\<close>

lemma AppendCommitVertex_appends:
  "vertexData (AppendCommitVertex tr commit) = vertexData tr @ [commit]
   \<and> edgeData (AppendCommitVertex tr commit) = edgeData tr"
  by (simp add: AppendCommitVertex_def)

text \<open>
  \<^verbatim>\<open>AppendCommitEdge\<close> keeps the buffered edges in place and what they point to unchanged,
  and appends one edge per parent hash; read through the pointers, the new edges are
  \<open>new_edge_rows\<close>.
\<close>

lemma AppendCommitEdge_appends:
  assumes "edges_below (fresh s) (edgeData tr)"
    and "AppendCommitEdge lv h xs (s, tr) = (s', tr')"
  shows "vertexData tr' = vertexData tr"
    and "take (length (edgeData tr)) (edgeData tr') = edgeData tr"
    and "length (edgeData tr') = length (edgeData tr) + length xs"
    and "GetEdgeData s' tr' = GetEdgeData s tr @ new_edge_rows lv h xs"
proof -
  from AppendCommitEdge_facts [OF assms(2)] obtain es where es:
    "tr' = tr\<lparr>edgeData := edgeData tr @ es\<rparr>" "length es = length xs"
    "map (edge_row s') es = new_edge_rows lv h xs"
    and frame: "\<forall>a. a < fresh s \<longrightarrow> cells s' a = cells s a"
    by blast
  show "vertexData tr' = vertexData tr"
    and "take (length (edgeData tr)) (edgeData tr') = edgeData tr"
    and "length (edgeData tr') = length (edgeData tr) + length xs"
    by (simp_all add: es)
  show "GetEdgeData s' tr' = GetEdgeData s tr @ new_edge_rows lv h xs"
    using rows_stable [OF assms(1) frame] by (simp add: GetEdgeData_def es)
qed

text \<open>With a variable per iteration the new edges carry the parent hashes in order.\<close>

lemma AppendCommitEdge_per_iteration:
  assumes "edges_below (fresh s) (edgeData tr)"
    and "AppendCommitEdge PerIteration h xs (s, tr) = (s', tr')"
  shows "GetEdgeData s' tr' = GetEdgeData s tr @ map (Pair h) xs"
  using AppendCommitEdge_appends(4) [OF assms] by (simp add: new_edge_rows_def)

text \<open>
  Claim C10, at a new transformer and the call \<^verbatim>\<open>AppendCommitEdge("M", ["P1", "P2"])\<close>,
  with one range variable for the loop: both new edges point to that variable, which
  holds \<open>P2\<close> when the loop is over, so the edge to \<open>P1\<close> is not in the buffer.
\<close>

theorem AppendCommitEdge_shared_range_variable:
  "(case AppendCommitEdge PerLoop ''M'' [''P1'', ''P2''] (store_ex, GetInstance) of
      (s', tr') \<Rightarrow> GetEdgeData s' tr') =
   [(''M'', ''P2''), (''M'', ''P2'')]"
  by code_simp

section \<open>The file inventory\<close>

text \<open>
  Claim C5. When \<^verbatim>\<open>commit.Files()\<close> succeeds and the iteration ends without error, a visit
  by a file-inventory transformer appends one \<^verbatim>\<open>FileContentVertex\<close> per file of the tree,
  in order, with the first six characters of the commit's and of the file's hash string,
  the file's name and its size; every file is handed to \<^verbatim>\<open>CopyFile\<close>; and the returned
  count is the number of files (as a 64-bit integer; a Go slice has fewer than \<open>2^63\<close>
  elements).
\<close>

theorem visitCommit_file_inventory:
  assumes "objs s t = Content v" and "Files commit = Inr (FileIter files None)"
  shows "visitCommit ext driller commit t s =
    Returns (of_nat (length files),
      s\<lparr>objs := (objs s)(t := Content (v\<lparr>copied := copied v @ files,
        fileData := fileData v @
          map (\<lambda>f. \<lparr>fc_CommitHash = take 6 (Hash_String (commit_Hash commit)),
                    fc_ObjectHash = take 6 (Hash_String (file_Hash f)),
                    fc_FileName = file_Name f, fc_FileSize = file_Size f\<rparr>) files\<rparr>))\<rparr>)
    \<and> (length files < 2 ^ 63 \<longrightarrow> sint (of_nat (length files) :: int64) = int (length files))"
  using assms by (simp add: visitCommit_Content sint_count file_row_def [abs_def])

theorem visitCommit_file_inventory_witness:
  "visitCommit (ext_ex PerLoop) (driller_ex [] [1]) commit_child 1 store_ex =
    Returns (2,
      store_ex\<lparr>objs := (objs store_ex)(1 := Content
        \<lparr>fileData =
           map (\<lambda>f. \<lparr>fc_CommitHash = take 6 (Hash_String (commit_Hash commit_child)),
                     fc_ObjectHash = take 6 (Hash_String (file_Hash f)),
                     fc_FileName = file_Name f, fc_FileSize = file_Size f\<rparr>) [file_a, file_b],
         copied = [file_a, file_b]\<rparr>)\<rparr>)
   \<and> sint (2 :: int64) = 2"
proof -
  have h1: "objs store_ex 1 = Content \<lparr>fileData = [], copied = []\<rparr>"
    by (simp add: store_ex_def)
  have h2: "Files commit_child = Inr (FileIter [file_a, file_b] None)"
    by (simp add: commit_child_def)
  show ?thesis
    using visitCommit_file_inventory [OF h1 h2, of "ext_ex PerLoop" "driller_ex [] [1]"]
    by simp
qed

text \<open>
  When \<^verbatim>\<open>commit.Files()\<close> fails, the visit returns \<open>-1\<close> and leaves the store as it is.
\<close>

lemma visitCommit_unreadable_tree:
  assumes "objs s t = Content v" and "Files commit = Inl err"
  shows "visitCommit ext driller commit t s = Returns (- 1, s)"
  using assms by (simp add: visitCommit_Content)

text \<open>
  Claim C3, at a walk of three commits whose first has an unreadable tree: the run goes
  on and the rows of the other two commits are exported, but the \<open>-1\<close> is added to the
  counter: it reads \<open>-1\<close> after the first commit, 1 after the two files of the second and
  2 at the end, where three files were processed.
\<close>

theorem Analyze_unreadable_tree_miscounts:
  "(case Analyze (ext_ex PerLoop)
          (driller_ex [commit_unreadable, commit_child, commit_root] [1]) store_ex of
      Returns (evs, s') \<Rightarrow> evs
    | _ \<Rightarrow> []) =
   [EvProgress ''Starting analysis...'',
    EvLog 0xc4c4c4c4c4c4c4c4c4c4c4c4c4c4c4c4c4c4c4c4,
    EvVisit 1 0xc3c3c3c3c3c3c3c3c3c3c3c3c3c3c3c3c3c3c3c3, EvProcessed (- 1),
    EvVisit 1 0xc2c2c2c2c2c2c2c2c2c2c2c2c2c2c2c2c2c2c2c2, EvProcessed 1,
    EvVisit 1 0xc1c1c1c1c1c1c1c1c1c1c1c1c1c1c1c1c1c1c1c1, EvProcessed 2,
    EvExport 1 (ContentOut
      [\<lparr>fc_CommitHash = ''c2c2c2'', fc_ObjectHash = ''aaaaaa'', fc_FileName = ''a.txt'',
         fc_FileSize = 10\<rparr>,
       \<lparr>fc_CommitHash = ''c2c2c2'', fc_ObjectHash = ''bbbbbb'', fc_FileName = ''b.txt'',
         fc_FileSize = 5\<rparr>,
       \<lparr>fc_CommitHash = ''c1c1c1'', fc_ObjectHash = ''aaaaaa'', fc_FileName = ''a.txt'',
         fc_FileSize = 10\<rparr>])]"
  by code_simp

section \<open>Init\<close>

text \<open>
  Claim C8. With \<open>IsLocal\<close> set, \<^verbatim>\<open>Init\<close> panics with the message that local repositories
  are not supported, whatever the other fields, the provider and the engine are, and
  makes no call to the provider.
\<close>

theorem Init_local_panics:
  "IsLocal cfg \<Longrightarrow>
     Init ext p driller cfg = ([], Panics ''Using local repositories is not yet supported.'')"
  by (simp add: Init_def)

theorem Init_local_panics_witness:
  "Init (ext_ex PerLoop) provider_failing driller_new (cfg_ex\<lparr>IsLocal := True\<rparr>) =
     ([], Panics ''Using local repositories is not yet supported.'')"
  using Init_local_panics [of "cfg_ex\<lparr>IsLocal := True\<rparr>" "ext_ex PerLoop" provider_failing driller_new]
  by simp

text \<open>A failed clone into memory ends the process.\<close>

lemma Init_memory_clone_error:
  "\<not> IsLocal cfg \<Longrightarrow> UseInMemoryTempRepository cfg \<Longrightarrow>
   git_Clone p \<lparr>URL = RepositoryUrl cfg, Progress = PrintLogs cfg\<rparr> = (r, Some e) \<Longrightarrow>
   snd (Init ext p driller cfg) = Fatal"
  by (simp add: Init_def)

text \<open>A failed clone to disk does not: \<^verbatim>\<open>Init\<close> returns with whatever handle it was given.\<close>

lemma Init_disk_clone_error:
  "\<not> IsLocal cfg \<Longrightarrow> \<not> UseInMemoryTempRepository cfg \<Longrightarrow>
   ioutil_TempDir p (GetRepositoryName ext cfg) = (dir, None) \<Longrightarrow>
   git_PlainClone p dir True \<lparr>URL = RepositoryUrl cfg, Progress = PrintLogs cfg\<rparr> = (r, err) \<Longrightarrow>
   snd (Init ext p driller cfg) = Returns (driller\<lparr>config := Some cfg, repository := r\<rparr>)"
  by (simp add: Init_def)

text \<open>
  Claim C6, at a configuration that clones to disk and a provider whose \<^verbatim>\<open>git.PlainClone\<close>
  fails with a \<^verbatim>\<open>nil\<close> repository: \<^verbatim>\<open>Init\<close> returns the engine with that \<^verbatim>\<open>nil\<close> handle.
\<close>

theorem Init_disk_clone_failure_returns:
  "git_PlainClone provider_failing ''/tmp/repo'' True
     \<lparr>URL = ''https://example.org/repo.git'', Progress = False\<rparr> =
     (None, Some ''repository not found'')
   \<and> Init (ext_ex PerLoop) provider_failing driller_new cfg_ex =
     ([CallTempDir ''repo'',
       CallPlainClone ''/tmp/repo'' True
         \<lparr>URL = ''https://example.org/repo.git'', Progress = False\<rparr>],
      Returns \<lparr>repository = None, transformer = [], config = Some cfg_ex\<rparr>)"
  by (simp add: Init_def ext_ex_def provider_failing_def driller_new_def cfg_ex_def)

section \<open>GetMetaInfos\<close>

lemma GetMetaInfos_range_eq:
  "GetMetaInfos_range ext s metas ts = metas @ concat (map (\<lambda>t. GetMetaInfo ext (objs s t)) ts)"
  by (induction ts arbitrary: metas) simp_all

text \<open>
  \<^verbatim>\<open>GetMetaInfos\<close> returns one zero value per registered transformer, then the entries of
  the transformers in registration order.
\<close>

lemma GetMetaInfos_eq:
  "GetMetaInfos ext driller s =
     replicate (length (transformer driller)) zero_Meta @
     concat (map (\<lambda>t. GetMetaInfo ext (objs s t)) (transformer driller))"
  by (simp add: GetMetaInfos_def GetMetaInfos_range_eq)

text \<open>
  Claim C4, at an engine with one registered commit-history transformer whose
  \<^verbatim>\<open>GetMetaInfo\<close> gives one entry: \<^verbatim>\<open>GetMetaInfos\<close> returns two elements, a zero value and
  that entry, where the concatenation of the entries has one.
\<close>

theorem GetMetaInfos_leading_zero_values:
  "GetMetaInfos (ext_ex PerLoop) (AppendTransformer driller_new 0) store_ex =
     [zero_Meta,
      \<lparr>meta_name = ''CommitHistoryTransformer'', meta_schema = ''CommitVertex'',
       meta_operationalLevel = ''commit''\<rparr>]
   \<and> concat (map (\<lambda>t. GetMetaInfo (ext_ex PerLoop) (objs store_ex t))
        (transformer (AppendTransformer driller_new 0))) =
     [\<lparr>meta_name = ''CommitHistoryTransformer'', meta_schema = ''CommitVertex'',
       meta_operationalLevel = ''commit''\<rparr>]"
  by (simp add: GetMetaInfos_def AppendTransformer_def driller_new_def store_ex_def ext_ex_def
      meta_ex_def GetInstance_def)

section \<open>What a visit adds to the exports\<close>

lemma wf_storeD: "wf_store s \<Longrightarrow> objs s r = History tr \<Longrightarrow> edges_below (fresh s) (edgeData tr)"
  by (simp add: wf_store_def split: Transformer.splits)

lemma wf_storeI:
  "(\<And>r tr. objs s r = History tr \<Longrightarrow> edges_below (fresh s) (edgeData tr)) \<Longrightarrow> wf_store s"
  by (simp add: wf_store_def split: Transformer.splits)

lemma Export_frame:
  assumes "wf_store s" and "\<forall>a. a < fresh s \<longrightarrow> cells s' a = cells s a"
  shows "Export s' (objs s u) = Export s (objs s u)"
proof (cases "objs s u")
  case (History tr)
  from wf_storeD [OF assms(1) History] assms(2)
  have "map (edge_row s') (edgeData tr) = map (edge_row s) (edgeData tr)"
    by (rule rows_stable)
  then show ?thesis by (simp add: History Export_def GetEdgeData_def)
qed (simp_all add: Export_def)

lemma GetEdgeData_objs_update [simp]: "GetEdgeData (s\<lparr>objs := f\<rparr>) tr = GetEdgeData s tr"
  by (simp add: GetEdgeData_def edge_row_def [abs_def])

lemma Export_objs_update [simp]: "Export (s\<lparr>objs := f\<rparr>) t = Export s t"
  by (simp add: Export_def GetEdgeData_def edge_row_def [abs_def] split: Transformer.splits)

lemma visitCommit_view:
  assumes wf: "wf_store s" and cfg: "config driller = Some cfg"
    and run: "visitCommit ext driller commit t s = Returns (n, s')"
  shows "wf_store s' \<and> view s' = (view s)(t := consume ext cfg commit (view s t))"
proof (cases "objs s t")
  case (History v)
  from visitCommit_History [OF History cfg, of ext commit] run obtain es where r:
    "objs s' = (objs s)(t := History (v\<lparr>vertexData := vertexData v @ [vertex_of ext cfg commit],
         edgeData := edgeData v @ es\<rparr>))"
    "map (edge_row s') es = edge_rows ext commit"
    "edges_below (fresh s') es" "fresh s \<le> fresh s'"
    "\<forall>a. a < fresh s \<longrightarrow> cells s' a = cells s a"
    by (auto simp: edge_rows_def)
  have "wf_store s'"
  proof (rule wf_storeI)
    fix r tr assume o: "objs s' r = History tr"
    show "edges_below (fresh s') (edgeData tr)"
    proof (cases "r = t")
      case True
      then have "edgeData tr = edgeData v @ es" using o r(1) by auto
      moreover have "edges_below (fresh s') (edgeData v)"
        using edges_below_mono [OF r(4) wf_storeD [OF wf History]] .
      ultimately show ?thesis using r(3) by simp
    next
      case False
      then have "objs s r = History tr" using o r(1) by simp
      from edges_below_mono [OF r(4) wf_storeD [OF wf this]] show ?thesis .
    qed
  qed
  moreover have "view s' u = ((view s)(t := consume ext cfg commit (view s t))) u" for u
  proof (cases "u = t")
    case True
    have "map (edge_row s') (edgeData v) = map (edge_row s) (edgeData v)"
      using rows_stable [OF wf_storeD [OF wf History] r(5)] .
    then show ?thesis
      using True r(1,2)
      by (simp add: view_def Export_def History consume_def GetEdgeData_def GetVertexData_def)
  next
    case False
    then have "objs s' u = objs s u" using r(1) by simp
    then show ?thesis
      using False Export_frame [OF wf r(5), of u] by (simp add: view_def)
  qed
  ultimately show ?thesis by blast
next
  case (Content v)
  show ?thesis
  proof (cases "Files commit")
    case (Inl err)
    with run Content have "s' = s" by (simp add: visitCommit_Content)
    then show ?thesis
      using wf Content Inl
      by (auto simp: fun_eq_iff view_def Export_def consume_def file_rows_def)
  next
    case (Inr it)
    obtain files err where it: "it = FileIter files err" by (cases it)
    from run Content Inr it have s':
      "s' = s\<lparr>objs := (objs s)(t := Content (v\<lparr>copied := copied v @ files,
          fileData := fileData v @ map (file_row commit) files\<rparr>))\<rparr>"
      by (cases err) (simp_all add: visitCommit_Content)
    have "wf_store s'"
      using wf by (auto simp: s' wf_store_def split: Transformer.splits)
    moreover have "view s' = (view s)(t := consume ext cfg commit (view s t))"
      using Content Inr it
      by (auto simp: s' fun_eq_iff view_def Export_def consume_def file_rows_def split: Transformer.split)
    ultimately show ?thesis by blast
  qed
next
  case (Structure v)
  show ?thesis
  proof (cases "Files commit")
    case (Inl err)
    with run Structure show ?thesis by (simp add: visitCommit_Structure)
  next
    case (Inr it)
    obtain files err where it: "it = FileIter files err" by (cases it)
    from run Structure Inr it have s':
      "s' = s\<lparr>objs := (objs s)(t :=
           Structure (v\<lparr>fileCounts := fileCounts v @ [of_nat (length files)]\<rparr>))\<rparr>"
      by (simp add: visitCommit_Structure)
    have "wf_store s'"
      using wf by (auto simp: s' wf_store_def split: Transformer.splits)
    moreover have "view s' = (view s)(t := consume ext cfg commit (view s t))"
      using Structure Inr it
      by (auto simp: s' fun_eq_iff view_def Export_def consume_def file_counts_def split: Transformer.split)
    ultimately show ?thesis by blast
  qed
next
  case Other
  with run have "s' = s" by (simp add: visitCommit_Other)
  then show ?thesis
    using wf Other by (auto simp: fun_eq_iff view_def Export_def consume_def)
qed

lemma visitCommit_returns_iff:
  "(\<exists>r. visitCommit ext driller commit t s = Returns r) = visit_returns driller commit (view s t)"
proof (cases "objs s t")
  case (History v)
  show ?thesis
  proof (cases "config driller")
    case None
    then show ?thesis
      using History by (simp add: visitCommit_def visit_returns_def view_def Export_def)
  next
    case (Some cfg)
    from visitCommit_History [OF History Some, of ext commit] show ?thesis
      using History Some by (auto simp: visit_returns_def view_def Export_def)
  qed
next
  case (Content v)
  then show ?thesis
    by (auto simp: visitCommit_Content visit_returns_def view_def Export_def
        split: sum.splits FileIter.splits option.splits)
next
  case (Structure v)
  then show ?thesis
    by (auto simp: visitCommit_Structure visit_returns_def view_def Export_def
        split: sum.splits FileIter.splits)
next
  case Other
  then show ?thesis
    by (simp add: visitCommit_Other visit_returns_def view_def Export_def)
qed

lemma visit_returns_consume [simp]:
  "visit_returns driller c (consume ext cfg c' out) = visit_returns driller c out"
  by (cases out) (auto simp: visit_returns_def consume_def)

lemma visit_returns_fold [simp]:
  "visit_returns driller c (fold (consume ext cfg) cs out) = visit_returns driller c out"
  by (induction cs arbitrary: out) simp_all

lemma refs_ForEach_view:
  assumes "wf_store s" and "config driller = Some cfg"
    and "refs_ForEach ext driller t commits (count, evs, s) = Returns (count', evs', s')"
  shows "wf_store s' \<and> view s' = (view s)(t := fold (consume ext cfg) commits (view s t))
    \<and> filter (\<lambda>e. \<not> is_processed e) evs' =
        filter (\<lambda>e. \<not> is_processed e) evs @ map (\<lambda>c. EvVisit t (commit_Hash c)) commits"
  using assms
proof (induction commits arbitrary: count evs s)
  case Nil
  then show ?case by simp
next
  case (Cons c commits)
  from Cons.prems(3) obtain n s1 where v: "visitCommit ext driller c t s = Returns (n, s1)"
    by (cases "visitCommit ext driller c t s") auto
  from visitCommit_view [OF Cons.prems(1,2) v]
  have s1: "wf_store s1" "view s1 = (view s)(t := consume ext cfg c (view s t))"
    by blast+
  let ?evs1 = "evs @ [EvVisit t (commit_Hash c)] @
     (if count + n \<noteq> 0 then [EvProcessed (count + n)] else [])"
  from Cons.prems(3) v have run:
    "refs_ForEach ext driller t commits (count + n, ?evs1, s1) = Returns (count', evs', s')"
    by (simp add: Let_def)
  from Cons.IH [OF s1(1) Cons.prems(2) run] show ?case
    by (auto simp: s1(2) is_processed_def fun_eq_iff)
qed

lemma refs_ForEach_returns_iff:
  assumes "wf_store s" and "config driller = Some cfg"
  shows "(\<exists>r. refs_ForEach ext driller t commits (count, evs, s) = Returns r) =
    list_all (\<lambda>c. visit_returns driller c (view s t)) commits"
  using assms(1)
proof (induction commits arbitrary: count evs s)
  case Nil
  show ?case by simp
next
  case (Cons c commits)
  show ?case
  proof (cases "visitCommit ext driller c t s")
    case (Returns r)
    obtain n s1 where r: "r = (n, s1)" by (cases r)
    from visitCommit_view [OF Cons.prems assms(2) Returns [unfolded r]]
    have s1: "wf_store s1" "view s1 = (view s)(t := consume ext cfg c (view s t))"
      by blast+
    have "visit_returns driller c (view s t)"
      using visitCommit_returns_iff [of ext driller c t s] Returns by simp
    then show ?thesis
      using Returns r Cons.IH [OF s1(1)] by (simp add: Let_def s1(2))
  next
    case Fatal
    then have "\<not> visit_returns driller c (view s t)"
      using visitCommit_returns_iff [of ext driller c t s] by simp
    then show ?thesis using Fatal by simp
  next
    case (Panics m)
    then have "\<not> visit_returns driller c (view s t)"
      using visitCommit_returns_iff [of ext driller c t s] by simp
    then show ?thesis using Panics by simp
  qed
qed

section \<open>The walks of Analyze\<close>

lemma if_fun_upd: "(\<lambda>a. if a = t then x else f a) = f(t := x)"
  by (simp add: fun_eq_iff)

lemma consume_simps [simp]:
  "consume ext cfg c (HistoryOut (vo, vs) (eo, es)) =
     HistoryOut (vo, vs @ [vertex_of ext cfg c]) (eo, es @ edge_rows ext c)"
  "consume ext cfg c (ContentOut fs) = ContentOut (fs @ file_rows c)"
  "consume ext cfg c (StructureOut ks) = StructureOut (ks @ file_counts c)"
  "consume ext cfg c NoOut = NoOut"
  by (simp_all add: consume_def)

lemma is_processed_simps [simp]:
  "is_processed (EvProcessed n)" "\<not> is_processed (EvProgress m)" "\<not> is_processed (EvLog h)"
  "\<not> is_processed (EvVisit t h)" "\<not> is_processed (EvExport t out)"
  by (simp_all add: is_processed_def)

lemma Analyze_range_trace:
  assumes "wf_store s" and "config driller = Some cfg"
    and "Analyze_range ext driller repo head ts (evs, s) = Returns (evs', s')"
  shows "wf_store s' \<and>
    filter (\<lambda>e. \<not> is_processed e) evs' =
      filter (\<lambda>e. \<not> is_processed e) evs @ trace ext cfg head (walk repo head) ts (view s)"
  using assms(1,3)
proof (induction ts arbitrary: evs s)
  case Nil
  then show ?case by simp
next
  case (Cons t ts)
  from Cons.prems(2) obtain commits where log: "Log repo head = Inr commits"
    by (cases "Log repo head") auto
  from Cons.prems(2) log obtain count evs1 s1 where
    pass: "refs_ForEach ext driller t commits (0, evs @ [EvLog head], s) = Returns (count, evs1, s1)"
    by (cases "refs_ForEach ext driller t commits (0, evs @ [EvLog head], s)") auto
  from Cons.prems(2) log pass have rest:
    "Analyze_range ext driller repo head ts (evs1 @ [EvExport t (Export s1 (objs s1 t))], s1) =
       Returns (evs', s')"
    by simp
  from refs_ForEach_view [OF Cons.prems(1) assms(2) pass]
  have s1: "wf_store s1"
    "view s1 = (view s)(t := fold (consume ext cfg) commits (view s t))"
    "filter (\<lambda>e. \<not> is_processed e) evs1 =
       filter (\<lambda>e. \<not> is_processed e) (evs @ [EvLog head]) @
       map (\<lambda>c. EvVisit t (commit_Hash c)) commits"
    by blast+
  have out: "Export s1 (objs s1 t) = fold (consume ext cfg) commits (view s t)"
    using s1(2) by (simp add: view_def fun_eq_iff)
  from Cons.IH [OF s1(1) rest] show ?case
    by (simp add: s1(2,3) out walk_def log Let_def if_fun_upd)
qed

lemma Analyze_range_returns_iff:
  assumes "wf_store s" and "config driller = Some cfg" and "Log repo head = Inr commits"
  shows "(\<exists>r. Analyze_range ext driller repo head ts (evs, s) = Returns r) =
    list_all (\<lambda>t. list_all (\<lambda>c. visit_returns driller c (view s t)) commits) ts"
  using assms(1)
proof (induction ts arbitrary: evs s)
  case Nil
  show ?case by simp
next
  case (Cons t ts)
  show ?case
  proof (cases "refs_ForEach ext driller t commits (0, evs @ [EvLog head], s)")
    case (Returns r)
    obtain count evs1 s1 where r: "r = (count, evs1, s1)" by (cases r)
    from refs_ForEach_view [OF Cons.prems assms(2) Returns [unfolded r]]
    have s1: "wf_store s1"
      "view s1 = (view s)(t := fold (consume ext cfg) commits (view s t))"
      by blast+
    have "list_all (\<lambda>c. visit_returns driller c (view s t)) commits"
      using refs_ForEach_returns_iff [OF Cons.prems assms(2), of ext t commits 0 "evs @ [EvLog head]"]
        Returns by blast
    moreover have "list_all (\<lambda>u. list_all (\<lambda>c. visit_returns driller c (view s1 u)) commits) ts =
        list_all (\<lambda>u. list_all (\<lambda>c. visit_returns driller c (view s u)) commits) ts"
      by (auto simp: s1(2) list_all_iff)
    ultimately show ?thesis
      using Returns r assms(3) Cons.IH [OF s1(1)] by simp
  next
    case Fatal
    then have "\<not> list_all (\<lambda>c. visit_returns driller c (view s t)) commits"
      using refs_ForEach_returns_iff [OF Cons.prems assms(2), of ext t commits 0 "evs @ [EvLog head]"]
      by simp
    then show ?thesis using Fatal assms(3) by simp
  next
    case (Panics m)
    then have "\<not> list_all (\<lambda>c. visit_returns driller c (view s t)) commits"
      using refs_ForEach_returns_iff [OF Cons.prems assms(2), of ext t commits 0 "evs @ [EvLog head]"]
      by simp
    then show ?thesis using Panics assms(3) by simp
  qed
qed

lemma trace_distinct:
  "distinct ts \<Longrightarrow> \<forall>t\<in>set ts. vw t = vw0 t \<Longrightarrow>
   trace ext cfg head cs ts vw =
     concat (map (\<lambda>t. EvLog head # map (\<lambda>c. EvVisit t (commit_Hash c)) cs @
       [EvExport t (fold (consume ext cfg) cs (vw0 t))]) ts)"
  by (induction ts arbitrary: vw) (simp_all add: Let_def)

lemma fold_consume:
  "fold (consume ext cfg) cs out =
     (case out of
        HistoryOut (vo, vs) (eo, es) \<Rightarrow>
          HistoryOut (vo, vs @ map (vertex_of ext cfg) cs) (eo, es @ concat (map (edge_rows ext) cs))
      | ContentOut fs \<Rightarrow> ContentOut (fs @ concat (map file_rows cs))
      | StructureOut ks \<Rightarrow> StructureOut (ks @ concat (map file_counts cs))
      | NoOut \<Rightarrow> NoOut)"
proof (induction cs arbitrary: out)
  case Nil
  show ?case by (simp split: exported.split)
next
  case (Cons c cs)
  show ?case
  proof (cases out)
    case (HistoryOut v e)
    obtain vo vs eo es where "v = (vo, vs)" "e = (eo, es)" by (cases v, cases e)
    then show ?thesis by (simp add: HistoryOut Cons.IH)
  qed (simp_all add: Cons.IH)
qed

lemma as_sets_fold:
  assumes "set cs1 = set cs2" and "as_sets v1 = as_sets v2"
  shows "as_sets (fold (consume ext cfg) cs1 v1) = as_sets (fold (consume ext cfg) cs2 v2)"
  using assms
  by (cases v1; cases v2) (auto simp: fold_consume as_sets_def split: prod.splits)

lemma exports_append: "exports (xs @ ys) = exports xs @ exports ys"
  by (induction xs rule: exports.induct) simp_all

lemma exports_visits [simp]: "exports (map (\<lambda>c. EvVisit t (f c)) cs) = []"
  by (induction cs) simp_all

lemma exports_filter: "exports (filter (\<lambda>e. \<not> is_processed e) evs) = exports evs"
  by (induction evs rule: exports.induct) simp_all

lemma as_sets_fold_twice:
  assumes "set cs1 = set cs2"
  shows "as_sets (fold (consume ext cfg) cs2 (fold (consume ext cfg) cs1 v)) =
    as_sets (fold (consume ext cfg) cs1 v)"
  using assms by (cases v) (auto simp: fold_consume as_sets_def split: prod.splits)

lemma exports_trace_sets_rerun:
  assumes "set cs1 = set cs2"
  shows "\<forall>u. as_sets (vw2 u) = as_sets (vw1 u)
        \<or> as_sets (vw2 u) = as_sets (fold (consume ext cfg) cs1 (vw1 u)) \<Longrightarrow>
    map (apsnd as_sets) (exports (trace ext cfg head cs1 ts vw1)) =
    map (apsnd as_sets) (exports (trace ext cfg head cs2 ts vw2))"
proof (induction ts arbitrary: vw1 vw2)
  case Nil
  show ?case by simp
next
  case (Cons t ts)
  let ?out1 = "fold (consume ext cfg) cs1 (vw1 t)"
  let ?out2 = "fold (consume ext cfg) cs2 (vw2 t)"
  from Cons.prems have "as_sets (vw2 t) = as_sets (vw1 t) \<or> as_sets (vw2 t) = as_sets ?out1"
    by blast
  then have out: "as_sets ?out1 = as_sets ?out2"
  proof
    assume "as_sets (vw2 t) = as_sets (vw1 t)"
    then show ?thesis using as_sets_fold [OF assms, of "vw1 t" "vw2 t"] by simp
  next
    assume "as_sets (vw2 t) = as_sets ?out1"
    then have "as_sets ?out2 = as_sets (fold (consume ext cfg) cs2 ?out1)"
      using as_sets_fold [of cs2 cs2 "vw2 t" ?out1] by simp
    then show ?thesis using as_sets_fold_twice [OF assms] by simp
  qed
  have "\<forall>u. as_sets ((vw2(t := ?out2)) u) = as_sets ((vw1(t := ?out1)) u)
        \<or> as_sets ((vw2(t := ?out2)) u) = as_sets (fold (consume ext cfg) cs1 ((vw1(t := ?out1)) u))"
    using out Cons.prems by simp
  from Cons.IH [OF this] out show ?case
    by (simp add: Let_def exports_append if_fun_upd)
qed

lemma Analyze_range_views:
  assumes "wf_store s" and "config driller = Some cfg"
    and "Analyze_range ext driller repo head ts (evs, s) = Returns (evs', s')"
  shows "\<forall>u. (as_sets (view s' u) = as_sets (view s u)
          \<or> as_sets (view s' u) = as_sets (fold (consume ext cfg) (walk repo head) (view s u)))
        \<and> (\<forall>d c. visit_returns d c (view s' u) = visit_returns d c (view s u))"
  using assms(1,3)
proof (induction ts arbitrary: evs s)
  case Nil
  then show ?case by simp
next
  case (Cons t ts)
  from Cons.prems(2) obtain commits where log: "Log repo head = Inr commits"
    by (cases "Log repo head") auto
  from Cons.prems(2) log obtain count evs1 s1 where
    pass: "refs_ForEach ext driller t commits (0, evs @ [EvLog head], s) = Returns (count, evs1, s1)"
    by (cases "refs_ForEach ext driller t commits (0, evs @ [EvLog head], s)") auto
  from Cons.prems(2) log pass have rest:
    "Analyze_range ext driller repo head ts (evs1 @ [EvExport t (Export s1 (objs s1 t))], s1) =
       Returns (evs', s')"
    by simp
  from refs_ForEach_view [OF Cons.prems(1) assms(2) pass]
  have s1: "wf_store s1"
    "view s1 = (view s)(t := fold (consume ext cfg) commits (view s t))"
    by blast+
  have w: "walk repo head = commits" by (simp add: walk_def log)
  note ih = Cons.IH [OF s1(1) rest, unfolded w]
  show ?case
  proof (intro allI conjI)
    fix u
    show "as_sets (view s' u) = as_sets (view s u)
          \<or> as_sets (view s' u) = as_sets (fold (consume ext cfg) (walk repo head) (view s u))"
    proof (cases "u = t")
      case True
      from ih have "as_sets (view s' t) = as_sets (view s1 t)
          \<or> as_sets (view s' t) = as_sets (fold (consume ext cfg) commits (view s1 t))"
        by blast
      then show ?thesis
        using True as_sets_fold_twice [of commits commits ext cfg "view s t"]
        by (auto simp: s1(2) w)
    next
      case False
      then show ?thesis using spec [OF ih, of u] by (simp add: s1(2) w)
    qed
  next
    fix u d c
    show "visit_returns d c (view s' u) = visit_returns d c (view s u)"
      using ih by (simp add: s1(2))
  qed
qed

lemma AppendTransformer_order:
  "transformer (foldl AppendTransformer driller ts) = transformer driller @ ts"
  by (induction ts arbitrary: driller) (simp_all add: AppendTransformer_def)

lemma Analyze_Returns:
  assumes "Analyze ext driller s = Returns (evs, s')"
  obtains repo head where "repository driller = Some repo" and "Head repo = Inr head"
    and "Analyze_range ext driller repo head (transformer driller)
           ([EvProgress ''Starting analysis...''], s) = Returns (evs, s')"
  using assms by (auto simp: Analyze_def split: option.splits sum.splits)

lemma wf_store_ex: "wf_store store_ex"
  by (simp add: wf_store_def store_ex_def GetInstance_def edges_below_def)

text \<open>
  Claim C7. When \<^verbatim>\<open>Analyze\<close> returns, its events after the first (the prints of the
  counter left out) are, for each registered transformer in the order of the list that
  \<^verbatim>\<open>AppendTransformer\<close> appends to: one call of \<^verbatim>\<open>Log\<close> from the head, the visit of each
  commit of that walk by that transformer, in walk order, and then its export. What a
  transformer exports is what it would have exported at the start plus what its own walk
  added: no other transformer's walk changes it. The registered transformers are distinct
  objects, \<open>config\<close> is set by \<^verbatim>\<open>Init\<close>, and the pointers of the buffered edges are
  allocated variables.
\<close>

theorem Analyze_walks_in_registration_order:
  assumes "wf_store s" and "config driller = Some cfg" and "distinct (transformer driller)"
    and "Analyze ext driller s = Returns (evs, s')"
  shows "\<exists>repo head. repository driller = Some repo \<and> Head repo = Inr head \<and>
    filter (\<lambda>e. \<not> is_processed e) evs =
      EvProgress ''Starting analysis...'' #
      concat (map (\<lambda>t.
        EvLog head # map (\<lambda>c. EvVisit t (commit_Hash c)) (walk repo head) @
        [EvExport t (fold (consume ext cfg) (walk repo head) (Export s (objs s t)))])
        (transformer driller))"
proof -
  from assms(4) obtain repo head where r: "repository driller = Some repo" "Head repo = Inr head"
    and run: "Analyze_range ext driller repo head (transformer driller)
           ([EvProgress ''Starting analysis...''], s) = Returns (evs, s')"
    by (rule Analyze_Returns)
  from Analyze_range_trace [OF assms(1,2) run]
  have "filter (\<lambda>e. \<not> is_processed e) evs =
      EvProgress ''Starting analysis...'' #
      trace ext cfg head (walk repo head) (transformer driller) (view s)"
    by simp
  moreover have "trace ext cfg head (walk repo head) (transformer driller) (view s) =
      concat (map (\<lambda>t.
        EvLog head # map (\<lambda>c. EvVisit t (commit_Hash c)) (walk repo head) @
        [EvExport t (fold (consume ext cfg) (walk repo head) (view s t))])
        (transformer driller))"
    by (rule trace_distinct [OF assms(3)]) simp
  ultimately show ?thesis using r by (simp add: view_def)
qed

lemma Analyze_ex_returns:
  "\<exists>evs s'. Analyze (ext_ex lv) (driller_ex [commit_child, commit_root] [0, 1]) store_ex =
     Returns (evs, s')"
proof -
  have cfg: "config (driller_ex [commit_child, commit_root] [0, 1]) = Some cfg_ex"
    by (simp add: driller_ex_def)
  have log: "Log (repo_ex [commit_child, commit_root]) 0xc4c4c4c4c4c4c4c4c4c4c4c4c4c4c4c4c4c4c4c4 =
      Inr [commit_child, commit_root]"
    by (simp add: repo_ex_def)
  have "list_all (\<lambda>t. list_all
      (\<lambda>c. visit_returns (driller_ex [commit_child, commit_root] [0, 1]) c (view store_ex t))
      [commit_child, commit_root]) [0, 1]"
    by (simp add: visit_returns_def view_def Export_def store_ex_def driller_ex_def
        commit_child_def commit_root_def)
  with Analyze_range_returns_iff [OF wf_store_ex cfg log, of "ext_ex lv" "[0, 1]"
      "[EvProgress ''Starting analysis...'']"]
  show ?thesis
    by (simp add: Analyze_def driller_ex_def repo_ex_def)
qed

theorem Analyze_walks_in_registration_order_witness:
  "\<exists>evs s'.
     Analyze (ext_ex PerIteration)
       (foldl AppendTransformer (driller_ex [commit_child, commit_root] []) [0, 1]) store_ex =
       Returns (evs, s')
     \<and> filter (\<lambda>e. \<not> is_processed e) evs =
       [EvProgress ''Starting analysis...'',
        EvLog 0xc4c4c4c4c4c4c4c4c4c4c4c4c4c4c4c4c4c4c4c4,
        EvVisit 0 0xc2c2c2c2c2c2c2c2c2c2c2c2c2c2c2c2c2c2c2c2,
        EvVisit 0 0xc1c1c1c1c1c1c1c1c1c1c1c1c1c1c1c1c1c1c1c1,
        EvExport 0 (HistoryOut
          (''data/commit-vertices.parquet'',
           [vertex_of (ext_ex PerIteration) cfg_ex commit_child,
            vertex_of (ext_ex PerIteration) cfg_ex commit_root])
          (''data/commit-edges.parquet'',
           [(''c2c2c2c2c2c2c2c2c2c2c2c2c2c2c2c2c2c2c2c2'',
             ''c1c1c1c1c1c1c1c1c1c1c1c1c1c1c1c1c1c1c1c1'')])),
        EvLog 0xc4c4c4c4c4c4c4c4c4c4c4c4c4c4c4c4c4c4c4c4,
        EvVisit 1 0xc2c2c2c2c2c2c2c2c2c2c2c2c2c2c2c2c2c2c2c2,
        EvVisit 1 0xc1c1c1c1c1c1c1c1c1c1c1c1c1c1c1c1c1c1c1c1,
        EvExport 1 (ContentOut
          [\<lparr>fc_CommitHash = ''c2c2c2'', fc_ObjectHash = ''aaaaaa'', fc_FileName = ''a.txt'',
             fc_FileSize = 10\<rparr>,
           \<lparr>fc_CommitHash = ''c2c2c2'', fc_ObjectHash = ''bbbbbb'', fc_FileName = ''b.txt'',
             fc_FileSize = 5\<rparr>,
           \<lparr>fc_CommitHash = ''c1c1c1'', fc_ObjectHash = ''aaaaaa'', fc_FileName = ''a.txt'',
             fc_FileSize = 10\<rparr>])]"
proof -
  let ?ext = "ext_ex PerIteration"
  let ?d = "driller_ex [commit_child, commit_root] [0, 1]"
  let ?repo = "repo_ex [commit_child, commit_root]"
  let ?head = "0xc4c4c4c4c4c4c4c4c4c4c4c4c4c4c4c4c4c4c4c4 :: hash"
  have d: "foldl AppendTransformer (driller_ex [commit_child, commit_root] []) [0, 1] = ?d"
    by (simp add: AppendTransformer_def driller_ex_def)
  have cfg: "config ?d = Some cfg_ex" and dist: "distinct (transformer ?d)"
    and repo: "repository ?d = Some ?repo"
    by (simp_all add: driller_ex_def)
  have head: "Head ?repo = Inr ?head"
    by (simp add: repo_ex_def)
  from Analyze_ex_returns [of PerIteration] obtain evs s' where
    run: "Analyze ?ext ?d store_ex = Returns (evs, s')"
    by blast
  have ev: "EvProgress ''Starting analysis...'' #
      concat (map (\<lambda>t.
        EvLog ?head # map (\<lambda>c. EvVisit t (commit_Hash c)) (walk ?repo ?head) @
        [EvExport t (fold (consume ?ext cfg_ex) (walk ?repo ?head)
           (Export store_ex (objs store_ex t)))])
        [0, 1]) =
       [EvProgress ''Starting analysis...'',
        EvLog 0xc4c4c4c4c4c4c4c4c4c4c4c4c4c4c4c4c4c4c4c4,
        EvVisit 0 0xc2c2c2c2c2c2c2c2c2c2c2c2c2c2c2c2c2c2c2c2,
        EvVisit 0 0xc1c1c1c1c1c1c1c1c1c1c1c1c1c1c1c1c1c1c1c1,
        EvExport 0 (HistoryOut
          (''data/commit-vertices.parquet'',
           [vertex_of (ext_ex PerIteration) cfg_ex commit_child,
            vertex_of (ext_ex PerIteration) cfg_ex commit_root])
          (''data/commit-edges.parquet'',
           [(''c2c2c2c2c2c2c2c2c2c2c2c2c2c2c2c2c2c2c2c2'',
             ''c1c1c1c1c1c1c1c1c1c1c1c1c1c1c1c1c1c1c1c1'')])),
        EvLog 0xc4c4c4c4c4c4c4c4c4c4c4c4c4c4c4c4c4c4c4c4,
        EvVisit 1 0xc2c2c2c2c2c2c2c2c2c2c2c2c2c2c2c2c2c2c2c2,
        EvVisit 1 0xc1c1c1c1c1c1c1c1c1c1c1c1c1c1c1c1c1c1c1c1,
        EvExport 1 (ContentOut
          [\<lparr>fc_CommitHash = ''c2c2c2'', fc_ObjectHash = ''aaaaaa'', fc_FileName = ''a.txt'',
             fc_FileSize = 10\<rparr>,
           \<lparr>fc_CommitHash = ''c2c2c2'', fc_ObjectHash = ''bbbbbb'', fc_FileName = ''b.txt'',
             fc_FileSize = 5\<rparr>,
           \<lparr>fc_CommitHash = ''c1c1c1'', fc_ObjectHash = ''aaaaaa'', fc_FileName = ''a.txt'',
             fc_FileSize = 10\<rparr>])]"
    by code_simp
  from Analyze_walks_in_registration_order [OF wf_store_ex cfg dist run]
  have "filter (\<lambda>e. \<not> is_processed e) evs =
      EvProgress ''Starting analysis...'' #
      concat (map (\<lambda>t.
        EvLog ?head # map (\<lambda>c. EvVisit t (commit_Hash c)) (walk ?repo ?head) @
        [EvExport t (fold (consume ?ext cfg_ex) (walk ?repo ?head)
           (Export store_ex (objs store_ex t)))])
        [0, 1])"
    using repo head by (auto simp: driller_ex_def)
  with run ev show ?thesis
    unfolding d by (intro exI [of _ evs] exI [of _ s']) simp
qed

lemma visit_returns_config:
  "config d2 = config d1 \<Longrightarrow> visit_returns d2 c out = visit_returns d1 c out"
  by (cases out) (simp_all add: visit_returns_def)

section \<open>Two runs over the same commits\<close>

text \<open>
  Claim C9. Take a run of \<^verbatim>\<open>Analyze\<close> that returns, and a second run against a repository
  handle with the same head whose walk delivers the same set of commits, in any order.
  Whether the second run starts from the state the first one started from, or from the
  state the first one left (the buffers are not emptied, so every row is buffered twice),
  it returns, and the two runs export, transformer by transformer in registration order,
  the same set of vertices, the same set of edges (read through their pointers) and the
  same set of file records. The file-count statistic is not compared.
\<close>

theorem Analyze_same_sets_for_same_commits:
  assumes "wf_store s" and "config driller = Some cfg"
    and "repository driller = Some repo1" and "Head repo1 = Inr head" and "Head repo2 = Inr head"
    and "Log repo1 head = Inr cs1" and "Log repo2 head = Inr cs2" and "set cs1 = set cs2"
    and "Analyze ext driller s = Returns (evs1, s1)"
  shows "(\<exists>evs2 s2.
      Analyze ext (driller\<lparr>repository := Some repo2\<rparr>) s = Returns (evs2, s2)
      \<and> map (apsnd as_sets) (exports evs1) = map (apsnd as_sets) (exports evs2))
    \<and> (\<exists>evs3 s3.
      Analyze ext (driller\<lparr>repository := Some repo2\<rparr>) s1 = Returns (evs3, s3)
      \<and> map (apsnd as_sets) (exports evs1) = map (apsnd as_sets) (exports evs3))"
proof -
  let ?d2 = "driller\<lparr>repository := Some repo2\<rparr>"
  let ?ts = "transformer driller"
  let ?evs0 = "[EvProgress ''Starting analysis...'']"
  have cfg2: "config ?d2 = Some cfg" using assms(2) by simp
  have w1: "walk repo1 head = cs1" and w2: "walk repo2 head = cs2"
    using assms(6,7) by (simp_all add: walk_def)
  from assms(3,4,9) have run1: "Analyze_range ext driller repo1 head ?ts (?evs0, s) = Returns (evs1, s1)"
    by (simp add: Analyze_def)
  from Analyze_range_trace [OF assms(1,2) run1]
  have wf1: "wf_store s1"
    and t1: "filter (\<lambda>e. \<not> is_processed e) evs1 =
      EvProgress ''Starting analysis...'' # trace ext cfg head cs1 ?ts (view s)"
    by (simp_all add: w1)
  have e1: "exports evs1 = exports (trace ext cfg head cs1 ?ts (view s))"
    using arg_cong [OF t1, of exports] by (simp add: exports_filter)
  from Analyze_range_views [OF assms(1,2) run1]
  have views: "\<forall>u. as_sets (view s1 u) = as_sets (view s u)
        \<or> as_sets (view s1 u) = as_sets (fold (consume ext cfg) cs1 (view s u))"
    and kinds: "\<forall>u d c. visit_returns d c (view s1 u) = visit_returns d c (view s u)"
    by (simp_all add: w1)
  have "list_all (\<lambda>t. list_all (\<lambda>c. visit_returns driller c (view s t)) cs1) ?ts"
    using run1 Analyze_range_returns_iff [OF assms(1,2,6), of ext ?ts ?evs0] by blast
  then have ok: "list_all (\<lambda>t. list_all (\<lambda>c. visit_returns ?d2 c (view s t)) cs2) ?ts"
    using assms(8) visit_returns_config [of ?d2 driller] by (simp add: list_all_iff)
  have second: "\<exists>evs2 s2. Analyze ext ?d2 s = Returns (evs2, s2)
      \<and> map (apsnd as_sets) (exports evs1) = map (apsnd as_sets) (exports evs2)"
  proof -
    from ok obtain evs2 s2 where
      run2: "Analyze_range ext ?d2 repo2 head ?ts (?evs0, s) = Returns (evs2, s2)"
      using Analyze_range_returns_iff [OF assms(1) cfg2 assms(7), of ext ?ts ?evs0] by auto
    have a2: "Analyze ext ?d2 s = Returns (evs2, s2)"
      using run2 assms(5) by (simp add: Analyze_def)
    from Analyze_range_trace [OF assms(1) cfg2 run2]
    have t2: "filter (\<lambda>e. \<not> is_processed e) evs2 =
        EvProgress ''Starting analysis...'' # trace ext cfg head cs2 ?ts (view s)"
      by (simp add: w2)
    have "exports evs2 = exports (trace ext cfg head cs2 ?ts (view s))"
      using arg_cong [OF t2, of exports] by (simp add: exports_filter)
    moreover have "map (apsnd as_sets) (exports (trace ext cfg head cs1 ?ts (view s))) =
        map (apsnd as_sets) (exports (trace ext cfg head cs2 ?ts (view s)))"
      by (rule exports_trace_sets_rerun [OF assms(8)]) simp
    ultimately show ?thesis using a2 e1 by auto
  qed
  have again: "\<exists>evs3 s3. Analyze ext ?d2 s1 = Returns (evs3, s3)
      \<and> map (apsnd as_sets) (exports evs1) = map (apsnd as_sets) (exports evs3)"
  proof -
    from ok kinds have "list_all (\<lambda>t. list_all (\<lambda>c. visit_returns ?d2 c (view s1 t)) cs2) ?ts"
      by simp
    then obtain evs3 s3 where
      run3: "Analyze_range ext ?d2 repo2 head ?ts (?evs0, s1) = Returns (evs3, s3)"
      using Analyze_range_returns_iff [OF wf1 cfg2 assms(7), of ext ?ts ?evs0] by auto
    have a3: "Analyze ext ?d2 s1 = Returns (evs3, s3)"
      using run3 assms(5) by (simp add: Analyze_def)
    from Analyze_range_trace [OF wf1 cfg2 run3]
    have t3: "filter (\<lambda>e. \<not> is_processed e) evs3 =
        EvProgress ''Starting analysis...'' # trace ext cfg head cs2 ?ts (view s1)"
      by (simp add: w2)
    have "exports evs3 = exports (trace ext cfg head cs2 ?ts (view s1))"
      using arg_cong [OF t3, of exports] by (simp add: exports_filter)
    moreover have "map (apsnd as_sets) (exports (trace ext cfg head cs1 ?ts (view s))) =
        map (apsnd as_sets) (exports (trace ext cfg head cs2 ?ts (view s1)))"
      by (rule exports_trace_sets_rerun [OF assms(8)]) (use views in blast)
    ultimately show ?thesis using a3 e1 by auto
  qed
  from second again show ?thesis by blast
qed

theorem Analyze_same_sets_for_same_commits_witness:
  "\<exists>evs1 s1 evs2 s2 evs3 s3.
     Analyze (ext_ex PerLoop) (driller_ex [commit_merge, commit_child, commit_root] [0, 1])
       store_ex = Returns (evs1, s1)
     \<and> Analyze (ext_ex PerLoop) (driller_ex [commit_root, commit_merge, commit_child] [0, 1])
       store_ex = Returns (evs2, s2)
     \<and> map (apsnd as_sets) (exports evs1) = map (apsnd as_sets) (exports evs2)
     \<and> Analyze (ext_ex PerLoop) (driller_ex [commit_root, commit_merge, commit_child] [0, 1])
       s1 = Returns (evs3, s3)
     \<and> map (apsnd as_sets) (exports evs1) = map (apsnd as_sets) (exports evs3)"
proof -
  let ?cs1 = "[commit_merge, commit_child, commit_root]"
  let ?cs2 = "[commit_root, commit_merge, commit_child]"
  let ?d = "driller_ex ?cs1 [0, 1]"
  let ?head = "0xc4c4c4c4c4c4c4c4c4c4c4c4c4c4c4c4c4c4c4c4 :: hash"
  have d2: "?d\<lparr>repository := Some (repo_ex ?cs2)\<rparr> = driller_ex ?cs2 [0, 1]"
    by (simp add: driller_ex_def)
  have cfg: "config ?d = Some cfg_ex" and repo: "repository ?d = Some (repo_ex ?cs1)"
    by (simp_all add: driller_ex_def)
  have h1: "Head (repo_ex ?cs1) = Inr ?head" and h2: "Head (repo_ex ?cs2) = Inr ?head"
    and l1: "Log (repo_ex ?cs1) ?head = Inr ?cs1" and l2: "Log (repo_ex ?cs2) ?head = Inr ?cs2"
    by (simp_all add: repo_ex_def)
  have same: "set ?cs1 = set ?cs2"
    by auto
  have "list_all (\<lambda>t. list_all (\<lambda>c. visit_returns ?d c (view store_ex t)) ?cs1) [0, 1]"
    by (simp add: visit_returns_def view_def Export_def store_ex_def driller_ex_def
        commit_merge_def commit_child_def commit_root_def)
  with Analyze_range_returns_iff [OF wf_store_ex cfg l1, of "ext_ex PerLoop" "[0, 1]"
      "[EvProgress ''Starting analysis...'']"]
  obtain evs1 s1 where run: "Analyze (ext_ex PerLoop) ?d store_ex = Returns (evs1, s1)"
    by (auto simp: Analyze_def driller_ex_def repo_ex_def)
  from Analyze_same_sets_for_same_commits [OF wf_store_ex cfg repo h1 h2 l1 l2 same run]
  show ?thesis
    using run unfolding d2 by blast
qed

end
